theory Spec2Isabelle
  imports Main "HOL-Library.Stream" "HOL-Library.Word"
begin

unbundle bit_operations_syntax

section \<open>Python values and built-ins used by \<open>ptCrypt/Asymmetric/RSA.py\<close>\<close>

text \<open>
  Python integers are unbounded, so they are \<^typ>\<open>int\<close>.  A function of the module either
  returns a value (possibly \<open>None\<close>) or raises; a raise is \<open>Inl\<close> of the exception class and a
  return is \<open>Inr\<close>, with \<open>Inr None\<close> for a returned \<open>None\<close>.
\<close>

datatype error = ValueError | TypeError | AssertionError | AttributeError | OverflowError
  | ZeroDivisionError | IndexError

text \<open>
  The built-in \<open>pow(b, ex, m)\<close> of CPython on integers.  A zero modulus raises
  \<open>ValueError\<close>; the result has the sign of the modulus (as \<open>%\<close> has, which is HOL's
  \<open>mod\<close> on \<^typ>\<open>int\<close>); a negative exponent first replaces the base by its inverse modulo
  \<open>\<bar>m\<bar>\<close> and raises \<open>ValueError\<close> when the base is not invertible, except that modulus
  \<open>\<plusminus>1\<close> answers \<open>0\<close> before the inverse is looked for.  The inverse is computed with
  the Bezout coefficients of the library function \<^const>\<open>bezw\<close>.
\<close>

definition modInv :: "int \<Rightarrow> int \<Rightarrow> int" where
  "modInv a c = fst (bezw (nat (a mod c)) (nat c)) mod c"

definition pyPow :: "int \<Rightarrow> int \<Rightarrow> int \<Rightarrow> error + int" where
  "pyPow b ex m =
     (if m = 0 then Inl ValueError
      else if 0 \<le> ex then Inr (b ^ nat ex mod m)
      else if \<bar>m\<bar> = 1 then Inr 0
      else if gcd b m \<noteq> 1 then Inl ValueError
      else Inr (modInv b \<bar>m\<bar> ^ nat (- ex) mod m))"

section \<open>RSA primitives\<close>

definition encrypt :: "int \<Rightarrow> int \<Rightarrow> int \<Rightarrow> error + int option" where
  "encrypt e n m =
     (if m < 0 \<or> m > n - 1 then Inr None
      else map_sum id Some (pyPow m e n))"

definition decrypt :: "int \<Rightarrow> int \<Rightarrow> int \<Rightarrow> error + int option" where
  "decrypt d n c =
     (if c < 0 \<or> c > n - 1 then Inr None
      else map_sum id Some (pyPow c d n))"

text \<open>Primality of an integer, by trial division, for the hypotheses of the key claims.\<close>

definition is_prime :: "int \<Rightarrow> bool" where
  "is_prime p \<longleftrightarrow> 1 < p \<and> (\<forall>d \<in> {2..p - 1}. \<not> d dvd p)"

section \<open>External collaborators\<close>

text \<open>
  The modules \<open>ptCrypt.Math.base\<close>, \<open>ptCrypt.Math.primality\<close> and \<open>ptCrypt.Util.keys\<close> are
  imported by \<open>RSA.py\<close> but are not part of the sources at hand.  The primality services and the
  key-size tables are parameters of the model, collected in one record; \<open>base.gcd\<close> is the
  greatest common divisor.  The verdict of the Miller-Rabin test is taken as a function of the
  candidate and the number of rounds (\<open>isProbablyPrime(n, rounds) -> bool\<close> in the interface
  list of the specification); the key-size lookups are taken as total functions, the
  second argument of \<open>getIFCAuxiliaryPrimesLegths\<close> is its keyword \<open>probablePrimes\<close> (\<open>False\<close>
  where the source leaves it out), and
  \<open>millerRabinTestsForIFC env N\<close> stands for the first component \<open>millerRabinTestsForIFC(N)[0]\<close>.
\<close>

record stResult =
  status :: bool
  prime :: int
  primeSeed :: int

record env =
  millerRabin :: "int \<Rightarrow> int \<Rightarrow> bool"
  millerRabinTestsForIFC :: "int \<Rightarrow> int"
  getIFCSecurityLevel :: "int \<Rightarrow> int"
  getIFCAuxiliaryPrimesLegths :: "int \<Rightarrow> bool \<Rightarrow> int \<times> int"
  ifcProvablePrime :: "int \<Rightarrow> int \<Rightarrow> int \<Rightarrow> int \<Rightarrow> int \<Rightarrow> (int \<times> int \<times> int \<times> int) option"
  shaweTaylor :: "int \<Rightarrow> int \<Rightarrow> stResult"

text \<open>
  The operating system's random source behind \<open>secrets.randbits\<close> is a stream of draws;
  \<open>randbits k\<close> takes the next draw, reduced to \<open>k\<close> bits, and raises \<open>ValueError\<close> for a negative
  \<open>k\<close>.
\<close>

type_synonym rng = "nat stream"

definition randbits :: "int \<Rightarrow> rng \<Rightarrow> error + int \<times> rng" where
  "randbits k s =
     (if k < 0 then Inl ValueError else Inr (int (shd s mod 2 ^ nat k), stl s))"

text \<open>\<open>int.bit_length()\<close>: the number of bits of the absolute value.\<close>

fun bitLengthNat :: "nat \<Rightarrow> nat" where
  "bitLengthNat n = (if n = 0 then 0 else Suc (bitLengthNat (n div 2)))"

declare bitLengthNat.simps [simp del]

definition bit_length :: "int \<Rightarrow> int" where
  "bit_length x = int (bitLengthNat (nat \<bar>x\<bar>))"

text \<open>
  A loop that need not end is a function of a fuel argument, the number of iterations it
  may still take: the result \<open>None\<close> says that the loop is still running when the fuel is used
  up, \<open>Some (Inl err)\<close> that the function raised \<open>err\<close>, and \<open>Some (Inr v)\<close> that it returned
  \<open>v\<close>.
\<close>

type_synonym 'a run = "(error + 'a) option"

text \<open>
  The local variables that the generators reset before a successful return.  \<open>None\<close> is a name
  that has not been bound yet.
\<close>

record locals =
  var_workingSeed :: "int option"
  var_pSeed :: "int option"
  var_qSeed :: "int option"
  var_primeSeed :: "int option"
  var_Xp :: "int option"
  var_Xq :: "int option"
  var_Xp1 :: "int option"
  var_Xp2 :: "int option"
  var_Xq1 :: "int option"
  var_Xq2 :: "int option"
  var_p1 :: "int option"
  var_p2 :: "int option"
  var_q1 :: "int option"
  var_q2 :: "int option"

definition unbound :: locals where
  "unbound = \<lparr>var_workingSeed = None, var_pSeed = None, var_qSeed = None, var_primeSeed = None,
     var_Xp = None, var_Xq = None, var_Xp1 = None, var_Xp2 = None, var_Xq1 = None,
     var_Xq2 = None, var_p1 = None, var_p2 = None, var_q1 = None, var_q2 = None\<rparr>"

section \<open>Provable primes (\<open>generateProvablePrimes\<close>)\<close>

text \<open>Step 7 of \<open>generateProvablePrimes\<close>, entered with the prime \<open>p\<close> and the working seed.\<close>

primrec provableQLoop ::
  "env \<Rightarrow> int \<Rightarrow> int \<Rightarrow> int \<Rightarrow> int \<Rightarrow> int \<Rightarrow> int \<Rightarrow> nat \<Rightarrow> int \<Rightarrow> locals
     \<Rightarrow> (locals \<times> (int \<times> int) option) run" where
  "provableQLoop env L N1 N2 e N p 0 workingSeed vars = None"
| "provableQLoop env L N1 N2 e N p (Suc fuel) workingSeed vars =
     (case ifcProvablePrime env L N1 N2 workingSeed e of
        None \<Rightarrow> Some (Inr (vars, None))
      | Some (q, q1, q2, qSeed) \<Rightarrow>
          (let vars = vars\<lparr>var_q1 := Some q1, var_q2 := Some q2, var_qSeed := Some qSeed,
                 var_workingSeed := Some qSeed\<rparr>
           in if \<bar>p - q\<bar> > 2 ^ nat (N div 2 - 100)
              then Some (Inr (vars\<lparr>var_pSeed := Some 0, var_qSeed := Some 0,
                                  var_workingSeed := Some 0\<rparr>, Some (p, q)))
              else provableQLoop env L N1 N2 e N p fuel qSeed vars))"

definition generateProvablePrimes ::
  "env \<Rightarrow> nat \<Rightarrow> int \<Rightarrow> int \<Rightarrow> int \<Rightarrow> (locals \<times> (int \<times> int) option) run" where
  "generateProvablePrimes env fuel e N seed =
     (if N \<noteq> 2048 \<and> N \<noteq> 3072 then Some (Inr (unbound, None))
      else if e \<le> 2 ^ 16 \<or> e \<ge> 2 ^ 256 \<or> e mod 2 = 0 then Some (Inr (unbound, None))
      else let securityStrength = getIFCSecurityLevel env N
        in if bit_length seed \<noteq> 2 * securityStrength then Some (Inr (unbound, None))
        else let workingSeed = seed;
                 vars = unbound\<lparr>var_workingSeed := Some workingSeed\<rparr>;
                 L = N div 2; N1 = 1; N2 = 1;
                 firstSeed = workingSeed
          in (case ifcProvablePrime env L N1 N2 firstSeed e of
                None \<Rightarrow> Some (Inr (vars, None))
              | Some (p, p1, p2, pSeed) \<Rightarrow>
                  provableQLoop env L N1 N2 e N p fuel pSeed
                    (vars\<lparr>var_p1 := Some p1, var_p2  := Some p2, var_pSeed := Some pSeed,
                          var_workingSeed := Some pSeed\<rparr>)))"

section \<open>Probable primes (\<open>generateProbablePrimes\<close>)\<close>

definition coeff1 :: "int \<Rightarrow> int" where
  "coeff1 N = 665857 * 2 ^ nat (N div 2 - 1) div 470832"

text \<open>Step 4: the search for \<open>p\<close>, with the counter \<open>i\<close>.\<close>

primrec pLoop :: "env \<Rightarrow> int \<Rightarrow> int \<Rightarrow> int \<Rightarrow> nat \<Rightarrow> int \<Rightarrow> rng \<Rightarrow> (int \<times> rng) option run" where
  "pLoop env e N testsCount 0 i s = None"
| "pLoop env e N testsCount (Suc fuel) i s =
     (case randbits (N div 2) s of
        Inl err \<Rightarrow> Some (Inl err)
      | Inr (r, s') \<Rightarrow>
          (let p = r OR 1
           in if p < coeff1 N then pLoop env e N testsCount fuel i s'
              else if gcd (p - 1) e = 1 \<and> millerRabin env p testsCount
                then Some (Inr (Some (p, s')))
              else if i + 1 \<ge> 5 * N div 2 then Some (Inr None)
              else pLoop env e N testsCount fuel (i + 1) s'))"

text \<open>Step 5: the search for \<open>q\<close>.\<close>

primrec qLoop ::
  "env \<Rightarrow> int \<Rightarrow> int \<Rightarrow> int \<Rightarrow> int \<Rightarrow> nat \<Rightarrow> int \<Rightarrow> rng \<Rightarrow> (int \<times> rng) option run" where
  "qLoop env e N testsCount p 0 i s = None"
| "qLoop env e N testsCount p (Suc fuel) i s =
     (case randbits (N div 2) s of
        Inl err \<Rightarrow> Some (Inl err)
      | Inr (r, s') \<Rightarrow>
          (let q = r OR 1
           in if \<bar>p - q\<bar> \<le> 2 ^ nat (N div 2 - 100) then qLoop env e N testsCount p fuel i s'
              else if q < coeff1 N then qLoop env e N testsCount p fuel i s'
              else if gcd (q - 1) e = 1 \<and> millerRabin env q testsCount
                then Some (Inr (Some (q, s')))
              else if i + 1 \<ge> 5 * N div 2 then Some (Inr None)
              else qLoop env e N testsCount p fuel (i + 1) s'))"

definition generateProbablePrimes ::
  "env \<Rightarrow> nat \<Rightarrow> int \<Rightarrow> int \<Rightarrow> rng \<Rightarrow> (int \<times> int) option run" where
  "generateProbablePrimes env fuel e N s =
     (if N \<noteq> 2048 \<and> N \<noteq> 3072 then Some (Inr None)
      else if e \<le> 2 ^ 16 \<or> e \<ge> 2 ^ 256 \<or> e mod 2 = 0 then Some (Inr None)
      else let testsCount = millerRabinTestsForIFC env N
        in (case pLoop env e N testsCount fuel 0 s of
              None \<Rightarrow> None
            | Some (Inl err) \<Rightarrow> Some (Inl err)
            | Some (Inr None) \<Rightarrow> Some (Inr None)
            | Some (Inr (Some (p, s'))) \<Rightarrow>
                (case qLoop env e N testsCount p fuel 0 s' of
                   None \<Rightarrow> None
                 | Some (Inl err) \<Rightarrow> Some (Inl err)
                 | Some (Inr None) \<Rightarrow> Some (Inr None)
                 | Some (Inr (Some (q, s''))) \<Rightarrow> Some (Inr (Some (p, q))))))"

section \<open>Provable primes with conditions (\<open>geneareteProvablePrimesWithConditions\<close>)\<close>

primrec conditionsQLoop ::
  "env \<Rightarrow> int \<Rightarrow> int \<Rightarrow> int \<Rightarrow> int \<Rightarrow> int \<Rightarrow> nat \<Rightarrow> int \<Rightarrow> locals
     \<Rightarrow> (locals \<times> (int \<times> int) option) run" where
  "conditionsQLoop env e N q1Len q2Len p 0 workingSeed vars = None"
| "conditionsQLoop env e N q1Len q2Len p (Suc fuel) workingSeed vars =
     (case ifcProvablePrime env (N div 2) e workingSeed q1Len q2Len of
        None \<Rightarrow> Some (Inr (vars, None))
      | Some (q, q1, q2, qSeed) \<Rightarrow>
          (let vars = vars\<lparr>var_q1 := Some q1, var_q2 := Some q2, var_qSeed := Some qSeed,
                 var_workingSeed := Some qSeed\<rparr>
           in if \<bar>p - q\<bar> > 2 ^ nat (N div 2 - 100)
              then Some (Inr (vars\<lparr>var_qSeed := Some 0, var_pSeed := Some 0,
                                  var_workingSeed := Some 0\<rparr>, Some (p, q)))
              else conditionsQLoop env e N q1Len q2Len p fuel qSeed vars))"

definition geneareteProvablePrimesWithConditions ::
  "env \<Rightarrow> nat \<Rightarrow> int \<Rightarrow> int \<Rightarrow> int \<Rightarrow> (locals \<times> (int \<times> int) option) run" where
  "geneareteProvablePrimesWithConditions env fuel e N seed =
     (if N \<noteq> 1024 \<and> N \<noteq> 2048 \<and> N \<noteq> 3072 then Some (Inr (unbound, None))
      else if e \<le> 2 ^ 16 \<or> e \<ge> 2 ^ 256 then Some (Inr (unbound, None))
      else let securityLevel = getIFCSecurityLevel env N
        in if bit_length seed \<noteq> 2 * securityLevel then Some (Inr (unbound, None))
        else let workingSeed = seed;
                 vars = unbound\<lparr>var_workingSeed := Some workingSeed\<rparr>;
                 (p1Len, p2Len) = getIFCAuxiliaryPrimesLegths env N False;
                 (q1Len, q2Len) = getIFCAuxiliaryPrimesLegths env N False
          in (case ifcProvablePrime env (N div 2) e workingSeed p1Len p2Len of
                None \<Rightarrow> Some (Inr (vars, None))
              | Some (p, p1, p2, pSeed) \<Rightarrow>
                  conditionsQLoop env e N q1Len q2Len p fuel pSeed
                    (vars\<lparr>var_p1 := Some p1, var_p2  := Some p2, var_pSeed := Some pSeed,
                          var_workingSeed := Some pSeed\<rparr>)))"

section \<open>The auxiliary-prime combiner (\<open>generateProbablePrimeWithAuxiliaryPrimes\<close>)\<close>

text \<open>
  The value \<open>R\<close> and the assertion on it.  The two inverses are computed from left to right;
  the remainders of the assertion would raise \<open>ZeroDivisionError\<close> on a zero modulus.
\<close>

definition computeR :: "int \<Rightarrow> int \<Rightarrow> error + int" where
  "computeR p1 p2 =
     (case pyPow p2 (- 1) (2 * p1) of
        Inl err \<Rightarrow> Inl err
      | Inr a \<Rightarrow>
          (case pyPow (2 * p1) (- 1) p2 of
             Inl err \<Rightarrow> Inl err
           | Inr b \<Rightarrow>
               (let R = a * p2 - b * 2 * p1
                in if 2 * p1 = 0 \<or> p2 = 0 then Inl ZeroDivisionError
                   else if \<not> (R mod (2 * p1) = 1 \<and> R mod p2 = (- 1) mod p2)
                     then Inl AssertionError
                   else Inr R)))"

text \<open>
  The borders as the source writes them, for \<open>N // 2 \<ge> 1\<close>: in
  \<open>665857 // 470832 * pow(2, N // 2 - 1)\<close> the floor division comes first.
\<close>

definition xLowBorder :: "int \<Rightarrow> int" where
  "xLowBorder N = 665857 div 470832 * 2 ^ nat (N div 2 - 1)"

definition xHighBorder :: "int \<Rightarrow> int" where
  "xHighBorder N = 2 ^ nat (N div 2) - 1"

text \<open>The loop that draws \<open>X\<close> again while it lies outside the borders.\<close>

primrec auxRedraw :: "int \<Rightarrow> nat \<Rightarrow> int \<Rightarrow> rng \<Rightarrow> (int \<times> rng) run" where
  "auxRedraw N 0 X s = None"
| "auxRedraw N (Suc fuel) X s =
     (if X < xLowBorder N \<or> X > xHighBorder N
      then (case randbits (N div 2) s of
              Inl err \<Rightarrow> Some (Inl err)
            | Inr (r, s') \<Rightarrow> auxRedraw N fuel (r OR 2 ^ nat (N div 2 - 1)) s')
      else Some (Inr (X, s)))"

text \<open>Steps 5 to 10: the inner loop on \<open>Y\<close>, with its counter \<open>i\<close>.\<close>

datatype step = Break | Found int | Exhausted

primrec auxInner :: "env \<Rightarrow> int \<Rightarrow> int \<Rightarrow> int \<Rightarrow> int \<Rightarrow> int \<Rightarrow> nat \<Rightarrow> int \<Rightarrow> int \<Rightarrow> step option" where
  "auxInner env testsCount e N p1 p2 0 i Y = None"
| "auxInner env testsCount e N p1 p2 (Suc fuel) i Y =
     (if Y \<ge> 2 ^ nat (N div 2) then Some Break
      else if gcd (Y - 1) e = 1 \<and> millerRabin env Y testsCount then Some (Found Y)
      else if i + 1 \<ge> 5 * (N div 2) then Some Exhausted
      else auxInner env testsCount e N p1 p2 fuel (i + 1) (Y + 2 * p1 * p2))"

text \<open>Step 3 onwards: the outer loop, which draws \<open>X\<close> and starts the inner loop.\<close>

primrec auxOuter ::
  "env \<Rightarrow> int \<Rightarrow> int \<Rightarrow> int \<Rightarrow> int \<Rightarrow> int \<Rightarrow> int \<Rightarrow> nat \<Rightarrow> rng
     \<Rightarrow> ((int \<times> int) \<times> rng) option run" where
  "auxOuter env testsCount e N R p1 p2 0 s = None"
| "auxOuter env testsCount e N R p1 p2 (Suc fuel) s =
     (case randbits (N div 2) s of
        Inl err \<Rightarrow> Some (Inl err)
      | Inr (r, s1) \<Rightarrow>
          (case auxRedraw N fuel (r OR 2 ^ nat (N div 2 - 1)) s1 of
             None \<Rightarrow> None
           | Some (Inl err) \<Rightarrow> Some (Inl err)
           | Some (Inr (X, s2)) \<Rightarrow>
               if \<not> (X \<le> xHighBorder N \<and> X \<ge> xLowBorder N) then Some (Inl AssertionError)
               else (let Y = X + ((R - X) mod (2 * p1 * p2))
                     in case auxInner env testsCount e N p1 p2 fuel 0 Y of
                          None \<Rightarrow> None
                        | Some Break \<Rightarrow> auxOuter env testsCount e N R p1 p2 fuel s2
                        | Some (Found Y') \<Rightarrow> Some (Inr (Some ((Y', X), s2)))
                        | Some Exhausted \<Rightarrow> Some (Inr None))))"

text \<open>
  For \<open>N // 2 < 0\<close> the first draw raises \<open>ValueError\<close>, and for \<open>N // 2 = 0\<close> the power
  \<open>2 ** (N // 2 - 1)\<close> is a float, so that the bitwise or raises \<open>TypeError\<close>.
\<close>

definition generateProbablePrimeWithAuxiliaryPrimes ::
  "env \<Rightarrow> nat \<Rightarrow> int \<Rightarrow> int \<Rightarrow> int \<Rightarrow> int \<Rightarrow> rng \<Rightarrow> ((int \<times> int) \<times> rng) option run" where
  "generateProbablePrimeWithAuxiliaryPrimes env fuel p1 p2 N e s =
     (let testsCount = millerRabinTestsForIFC env N
      in if gcd (2 * p1) p2 \<noteq> 1 then Some (Inr None)
         else (case computeR p1 p2 of
                 Inl err \<Rightarrow> Some (Inl err)
               | Inr R \<Rightarrow>
                   if N div 2 < 0 then Some (Inl ValueError)
                   else if N div 2 = 0 then Some (Inl TypeError)
                   else auxOuter env testsCount e N R p1 p2 fuel s))"

section \<open>Probable primes with conditions (\<open>generateProbablePrimesWithConditions\<close>)\<close>

text \<open>The final resets of Step 8 (7).\<close>

definition zeroize :: "locals \<Rightarrow> locals" where
  "zeroize vars = vars\<lparr>var_Xp := Some 0, var_Xq := Some 0, var_Xp1 := Some 0, var_Xp2 := Some 0,
     var_Xq1 := Some 0, var_Xq2 := Some 0, var_primeSeed := Some 0, var_p1 := Some 0,
     var_p2 := Some 0, var_q1 := Some 0, var_q2 := Some 0\<rparr>"

text \<open>Step 6 of Appendix B.3.5: the loop for \<open>q\<close> in the seed-driven mode.\<close>

primrec seededQLoop ::
  "env \<Rightarrow> int \<Rightarrow> int \<Rightarrow> int \<Rightarrow> int \<Rightarrow> int \<Rightarrow> int \<Rightarrow> nat \<Rightarrow> int \<Rightarrow> locals \<Rightarrow> rng
     \<Rightarrow> (locals \<times> (int \<times> int) option) run" where
  "seededQLoop env e N q1Len q2Len p Xp 0 seed vars s = None"
| "seededQLoop env e N q1Len q2Len p Xp (Suc fuel) seed vars s =
     (let res = shaweTaylor env q1Len seed
      in if \<not> status res then Some (Inr (vars, None))
         else let q1 = prime res; seed1 = primeSeed res;
                  vars = vars\<lparr>var_q1 := Some q1, var_primeSeed := Some seed1\<rparr>;
                  res = shaweTaylor env q2Len seed1
           in if \<not> status res then Some (Inr (vars, None))
              else let q2 = prime res; seed2 = primeSeed res;
                       vars = vars\<lparr>var_q2 := Some q2, var_primeSeed := Some seed2\<rparr>
                in (case generateProbablePrimeWithAuxiliaryPrimes env fuel q1 q2 N e s of
                      None \<Rightarrow> None
                    | Some (Inl err) \<Rightarrow> Some (Inl err)
                    | Some (Inr None) \<Rightarrow> Some (Inr (vars, None))
                    | Some (Inr (Some ((q, Xq), s'))) \<Rightarrow>
                        (let vars = vars\<lparr>var_Xq := Some Xq\<rparr>
                         in if \<bar>p - q\<bar> > 2 ^ nat (N div 2 - 100)
                               \<and> \<bar>Xp - Xq\<bar> > 2 ^ nat (N div 2 - 100)
                            then Some (Inr (zeroize vars, Some (p, q)))
                            else seededQLoop env e N q1Len q2Len p Xp fuel seed2 vars s')))"

text \<open>The expression \<open>secrets.randbits(k) | 2 ** (k - 1) | 1\<close>.\<close>

definition randomOddTop :: "int \<Rightarrow> rng \<Rightarrow> error + int \<times> rng" where
  "randomOddTop k s =
     (case randbits k s of
        Inl err \<Rightarrow> Inl err
      | Inr (r, s') \<Rightarrow>
          if k - 1 < 0 then Inl TypeError else Inr ((r OR 2 ^ nat (k - 1)) OR 1, s'))"

text \<open>The loop \<open>while not primality.millerRabin(X, testsCount): X += 2\<close>.\<close>

primrec nextProbablePrime :: "env \<Rightarrow> int \<Rightarrow> nat \<Rightarrow> int \<Rightarrow> int option" where
  "nextProbablePrime env testsCount 0 X = None"
| "nextProbablePrime env testsCount (Suc fuel) X =
     (if millerRabin env X testsCount then Some X
      else nextProbablePrime env testsCount fuel (X + 2))"

text \<open>Steps (5) and (6) of Appendix B.3.6: the loop for \<open>q\<close> in the direct-random mode.\<close>

primrec directQLoop ::
  "env \<Rightarrow> int \<Rightarrow> int \<Rightarrow> int \<Rightarrow> int \<Rightarrow> int \<Rightarrow> int \<Rightarrow> int \<Rightarrow> nat \<Rightarrow> locals \<Rightarrow> rng
     \<Rightarrow> (locals \<times> (int \<times> int) option) run" where
  "directQLoop env e N testsCount q1Len q2Len p Xp 0 vars s = None"
| "directQLoop env e N testsCount q1Len q2Len p Xp (Suc fuel) vars s =
     (case randomOddTop q1Len s of
        Inl err \<Rightarrow> Some (Inl err)
      | Inr (Xq1, s1) \<Rightarrow>
     (case randomOddTop q2Len s1 of
        Inl err \<Rightarrow> Some (Inl err)
      | Inr (Xq2, s2) \<Rightarrow>
     (case nextProbablePrime env testsCount fuel Xq1 of
        None \<Rightarrow> None
      | Some Xq1 \<Rightarrow>
     (case nextProbablePrime env testsCount fuel Xq2 of
        None \<Rightarrow> None
      | Some Xq2 \<Rightarrow>
          (let vars = vars\<lparr>var_Xq1 := Some Xq1, var_Xq2 := Some Xq2\<rparr>
           in case generateProbablePrimeWithAuxiliaryPrimes env fuel Xq1 Xq2 N e s2 of
                None \<Rightarrow> None
              | Some (Inl err) \<Rightarrow> Some (Inl err)
              | Some (Inr None) \<Rightarrow> Some (Inr (vars, None))
              | Some (Inr (Some ((q, Xq), s3))) \<Rightarrow>
                  (let vars = vars\<lparr>var_Xq := Some Xq\<rparr>
                   in if \<bar>p - q\<bar> > 2 ^ nat (N div 2 - 100)
                         \<and> \<bar>Xp - Xq\<bar> > 2 ^ nat (N div 2 - 100)
                      then Some (Inr (zeroize vars, Some (p, q)))
                      else directQLoop env e N testsCount q1Len q2Len p Xp fuel vars s3))))))"

text \<open>
  The seed may be \<open>None\<close> (the docstring allows it when \<open>probablePrimes\<close> is set); reading
  \<open>seed.bit_length()\<close> of \<open>None\<close> raises \<open>AttributeError\<close>.  The \<open>and\<close> of the seed check does
  not evaluate its second operand when \<open>probablePrimes\<close> is set.
\<close>

definition generateProbablePrimesWithConditions ::
  "env \<Rightarrow> nat \<Rightarrow> int \<Rightarrow> int \<Rightarrow> int option \<Rightarrow> bool \<Rightarrow> rng \<Rightarrow> (locals \<times> (int \<times> int) option) run" where
  "generateProbablePrimesWithConditions env fuel e N seed probablePrimes s =
     (if N \<noteq> 1024 \<and> N \<noteq> 2048 \<and> N \<noteq> 3072 then Some (Inr (unbound, None))
      else if e \<le> 2 ^ 16 \<or> e \<ge> 2 ^ 256 then Some (Inr (unbound, None))
      else let testsCount = millerRabinTestsForIFC env N;
               securityLevel = getIFCSecurityLevel env N
        in (case (if \<not> probablePrimes
                  then (case seed of
                          None \<Rightarrow> Inl AttributeError
                        | Some sd \<Rightarrow> Inr (bit_length sd \<noteq> 2 * securityLevel))
                  else Inr False) of
              Inl err \<Rightarrow> Some (Inl err)
            | Inr True \<Rightarrow> Some (Inr (unbound, None))
            | Inr False \<Rightarrow>
               (let (p1Len, p2Len) = getIFCAuxiliaryPrimesLegths env N probablePrimes;
                    (q1Len, q2Len) = getIFCAuxiliaryPrimesLegths env N probablePrimes
                in if \<not> probablePrimes
                   then (case seed of
                           None \<Rightarrow> Some (Inl AttributeError)
                         | Some sd \<Rightarrow>
                    (let res = shaweTaylor env p1Len sd
                     in if \<not> status res then Some (Inr (unbound, None))
                        else let p1 = prime res; seed1 = primeSeed res;
                                 vars = unbound\<lparr>var_p1 := Some p1, var_primeSeed := Some seed1\<rparr>;
                                 res = shaweTaylor env p2Len seed1
                          in if \<not> status res then Some (Inr (vars, None))
                             else let p2 = prime res; seed2 = primeSeed res;
                                      vars = vars\<lparr>var_p2 := Some p2, var_primeSeed := Some seed2\<rparr>
                               in (case generateProbablePrimeWithAuxiliaryPrimes env fuel p1 p2 N e s of
                                     None \<Rightarrow> None
                                   | Some (Inl err) \<Rightarrow> Some (Inl err)
                                   | Some (Inr None) \<Rightarrow> Some (Inr (vars, None))
                                   | Some (Inr (Some ((p, Xp), s'))) \<Rightarrow>
                                       seededQLoop env e N q1Len q2Len p Xp fuel seed2
                                         (vars\<lparr>var_Xp := Some Xp\<rparr>) s')))
                   else
                    (case randomOddTop p1Len s of
                       Inl err \<Rightarrow> Some (Inl err)
                     | Inr (Xp1, s1) \<Rightarrow>
                    (case randomOddTop p2Len s1 of
                       Inl err \<Rightarrow> Some (Inl err)
                     | Inr (Xp2, s2) \<Rightarrow>
                    (case nextProbablePrime env testsCount fuel Xp1 of
                       None \<Rightarrow> None
                     | Some Xp1 \<Rightarrow>
                    (case nextProbablePrime env testsCount fuel Xp2 of
                       None \<Rightarrow> None
                     | Some Xp2 \<Rightarrow>
                         (let vars = unbound\<lparr>var_Xp1 := Some Xp1, var_Xp2 := Some Xp2\<rparr>
                          in case generateProbablePrimeWithAuxiliaryPrimes env fuel Xp1 Xp2 N e s2 of
                               None \<Rightarrow> None
                             | Some (Inl err) \<Rightarrow> Some (Inl err)
                             | Some (Inr None) \<Rightarrow> Some (Inr (vars, None))
                             | Some (Inr (Some ((p, Xp), s3))) \<Rightarrow>
                                 directQLoop env e N testsCount q1Len q2Len p Xp fuel
                                   (vars\<lparr>var_Xp := Some Xp\<rparr>) s3))))))))"

section \<open>OAEP (\<open>oaepEncrypt\<close>, \<open>oaepDecrypt\<close>, \<open>MGF\<close>)\<close>

text \<open>
  A \<open>bytes\<close> object is a list of 8-bit words.  Indexing a \<open>bytes\<close> object gives an integer, and
  Python compares an integer with a \<open>bytes\<close> object as two different values, whatever they
  hold: the two kinds of value are the constructors of one datatype.
\<close>

type_synonym byte = "8 word"

type_synonym bytes = "byte list"

datatype pyval = PyInt int | PyBytes bytes

text \<open>
  A hash function object: its \<open>digest_size\<close> and the digest of a message.  \<open>oaepEncrypt\<close> and
  \<open>oaepDecrypt\<close> take the hash function as an argument, while \<open>MGF\<close> is always called with
  its default, \<open>hashlib.sha256\<close>; both are parameters of the model.
\<close>

record hashFunction =
  digest_size :: nat
  digest :: "bytes \<Rightarrow> bytes"

text \<open>
  Modelled from the spec: the helpers \<open>byteLength\<close>, \<open>intToBytes\<close>, \<open>bytesToInt\<close> and \<open>xor\<close> of
  \<open>ptCrypt.Math.base\<close>, which is not among the sources.  The specification lists them as
  \<open>byteLength(x) -> int\<close>, \<open>intToBytes(x, len?) -> bytes\<close>, \<open>bytesToInt(b) -> int\<close> and
  \<open>xor(a: bytes, b: bytes) -> bytes\<close>, with big-endian conversions and a result of exactly
  \<open>len\<close> bytes, left-padded with zeros, when a length is given.  A \<open>None\<close> in place of the
  integer or of the second \<open>bytes\<close> argument raises \<open>TypeError\<close>, and an integer that does not
  fit raises \<open>OverflowError\<close>.
\<close>

definition byteLength :: "int \<Rightarrow> int" where
  "byteLength x = (bit_length x + 7) div 8"

primrec toBytesBE :: "nat \<Rightarrow> nat \<Rightarrow> bytes" where
  "toBytesBE 0 x = []"
| "toBytesBE (Suc k) x = toBytesBE k (x div 256) @ [word_of_nat (x mod 256)]"

definition intToBytes :: "int option \<Rightarrow> int option \<Rightarrow> error + bytes" where
  "intToBytes x len =
     (case x of
        None \<Rightarrow> Inl TypeError
      | Some v \<Rightarrow>
          (case len of
             None \<Rightarrow> if v < 0 then Inl OverflowError
                     else Inr (toBytesBE (nat (byteLength v)) (nat v))
           | Some l \<Rightarrow> if v < 0 \<or> l < 0 \<or> v \<ge> 256 ^ nat l then Inl OverflowError
                       else Inr (toBytesBE (nat l) (nat v))))"

definition bytesToInt :: "bytes \<Rightarrow> int" where
  "bytesToInt bs = foldl (\<lambda>acc b. acc * 256 + uint b) 0 bs"

definition xor :: "bytes \<Rightarrow> bytes option \<Rightarrow> error + bytes" where
  "xor a b =
     (case b of
        None \<Rightarrow> Inl TypeError
      | Some b' \<Rightarrow> Inr (map (\<lambda>(x, y). x XOR y) (zip a b')))"

text \<open>
  \<open>MGF(seed, length)\<close>.  The counter stays below \<open>2 ^ 32\<close> because of the first check, so its
  four-byte encoding does not overflow; the floor division raises \<open>ZeroDivisionError\<close> for a
  hash of digest size \<open>0\<close>.
\<close>

definition MGF :: "hashFunction \<Rightarrow> bytes \<Rightarrow> int \<Rightarrow> error + bytes option" where
  "MGF sha256 seed len =
     (let hashLength = int (digest_size sha256)
      in if len > 2 ^ 32 * hashLength then Inr None
         else if hashLength = 0 then Inl ZeroDivisionError
         else let top = len div hashLength;
                  top = (if len mod hashLength \<noteq> 0 then top + 1 else top);
                  t = concat (map (\<lambda>counter. digest sha256 (seed @ toBytesBE 4 counter))
                        [0..<nat top])
           in Inr (Some (take (nat len) t)))"

definition oaepEncrypt ::
  "hashFunction \<Rightarrow> hashFunction \<Rightarrow> int \<Rightarrow> int \<Rightarrow> bytes \<Rightarrow> bytes \<Rightarrow> rng
     \<Rightarrow> error + bytes option" where
  "oaepEncrypt sha256 hashFunction e n message label s =
     (case intToBytes (Some n) None of
        Inl err \<Rightarrow> Inl err
      | Inr nBytes \<Rightarrow>
     (let nLength = int (length nBytes);
          mLength = int (length message);
          hLength = int (digest_size hashFunction)
      in if mLength > nLength - 2 * hLength - 2 then Inr None
         else
          (let lHash = digest hashFunction label;
               ps = replicate (nat (nLength - mLength - 2 * hLength - 2)) (0::byte);
               db = lHash @ ps @ [1] @ message
           in case randbits (hLength * 8) s of
                Inl err \<Rightarrow> Inl err
              | Inr (r, s') \<Rightarrow>
             (case intToBytes (Some r) None of
                Inl err \<Rightarrow> Inl err
              | Inr seed \<Rightarrow>
             (case MGF sha256 seed (nLength - hLength - 1) of
                Inl err \<Rightarrow> Inl err
              | Inr dbMask \<Rightarrow>
             (case xor db dbMask of
                Inl err \<Rightarrow> Inl err
              | Inr maskedDb \<Rightarrow>
             (case MGF sha256 maskedDb hLength of
                Inl err \<Rightarrow> Inl err
              | Inr seedMask \<Rightarrow>
             (case xor seed seedMask of
                Inl err \<Rightarrow> Inl err
              | Inr maskedSeed \<Rightarrow>
                 (let em = [0] @ maskedSeed @ maskedDb;
                      m = bytesToInt em
                  in case encrypt e n m of
                       Inl err \<Rightarrow> Inl err
                     | Inr c \<Rightarrow> map_sum id Some (intToBytes c (Some nLength)))))))))))"

text \<open>
  The padding scan of \<open>oaepDecrypt\<close>.  The loop body compares the integer \<open>db[index]\<close> with the
  \<open>bytes\<close> objects \<open>b"\x01"\<close> and \<open>b"\x00"\<close> and never changes \<open>index\<close>.  \<open>Some True\<close>: the loop
  was left, by \<open>break\<close> or by its condition; \<open>Some False\<close>: the body returned \<open>None\<close>.
\<close>

primrec paddingScan :: "nat \<Rightarrow> bytes \<Rightarrow> nat \<Rightarrow> bool option" where
  "paddingScan 0 db index = None"
| "paddingScan (Suc fuel) db index =
     (if index < length db
      then (if PyInt (uint (db ! index)) = PyBytes [1] then Some True
            else if PyInt (uint (db ! index)) \<noteq> PyBytes [0] then Some False
            else paddingScan fuel db index)
      else Some True)"

definition oaepDecrypt ::
  "hashFunction \<Rightarrow> hashFunction \<Rightarrow> nat \<Rightarrow> int \<Rightarrow> int \<Rightarrow> bytes \<Rightarrow> bytes \<Rightarrow> bytes option run" where
  "oaepDecrypt sha256 hashFunction fuel d n ciphertext label =
     (let nLength = byteLength n;
          hLength = int (digest_size hashFunction)
      in if int (length ciphertext) \<noteq> nLength then Some (Inr None)
         else if nLength < 2 * hLength + 2 then Some (Inr None)
         else
          (let c = bytesToInt ciphertext
           in case decrypt d n c of
                Inl err \<Rightarrow> Some (Inl err)
              | Inr m \<Rightarrow>
             (case intToBytes m (Some nLength) of
                Inl err \<Rightarrow> Some (Inl err)
              | Inr em \<Rightarrow>
                 (let lHash = digest hashFunction label
                  in if em = [] then Some (Inl IndexError)
                     else
                      (let maskedSeed = drop 1 (take (nat (1 + hLength)) em);
                           maskedDb = drop (nat (1 + hLength)) (take (nat nLength) em)
                       in case MGF sha256 maskedDb hLength of
                            Inl err \<Rightarrow> Some (Inl err)
                          | Inr seedMask \<Rightarrow>
                         (case xor maskedSeed seedMask of
                            Inl err \<Rightarrow> Some (Inl err)
                          | Inr seed \<Rightarrow>
                         (case MGF sha256 seed (nLength - hLength - 1) of
                            Inl err \<Rightarrow> Some (Inl err)
                          | Inr dbMask \<Rightarrow>
                         (case xor maskedDb dbMask of
                            Inl err \<Rightarrow> Some (Inl err)
                          | Inr db \<Rightarrow>
                             (let lHash' = take (nat hLength) db
                              in if lHash \<noteq> lHash' then Some (Inr None)
                                 else (case paddingScan fuel db (nat hLength) of
                                         None \<Rightarrow> None
                                       | Some False \<Rightarrow> Some (Inr None)
                                       | Some True \<Rightarrow>
                                           Some (Inr (Some (drop (nat hLength + 1) db)))))))))))))"

section \<open>Sample instances of the external services\<close>

text \<open>
  An instance of the parameters, for running the model on concrete inputs: a primality test
  that accepts every candidate, five rounds, the security levels 80, 112 and 128, auxiliary
  primes of 141 bits, and oracles for provable primes that fail.
\<close>

definition sampleEnv :: env where
  "sampleEnv = \<lparr>millerRabin = (\<lambda>n k. True), millerRabinTestsForIFC = (\<lambda>N. 5),
     getIFCSecurityLevel = (\<lambda>N. if N = 1024 then 80 else if N = 2048 then 112 else 128),
     getIFCAuxiliaryPrimesLegths = (\<lambda>N probablePrimes. (141, 141)),
     ifcProvablePrime = (\<lambda>a b c d e. None),
     shaweTaylor = (\<lambda>k sd. \<lparr>status = False, prime = 0, primeSeed = sd\<rparr>)\<rparr>"

text \<open>A hash function object with 32-byte digests, all of them zero.\<close>

definition sampleHash :: hashFunction where
  "sampleHash = \<lparr>digest_size = 32, digest = (\<lambda>x. replicate 32 0)\<rparr>"

text \<open>
  Three variants: an oracle for provable primes that answers the first seed \<open>2 ^ 223\<close> with
  \<open>2 ^ 1024 - 1\<close> and every other seed with \<open>2 ^ 1023 + 1\<close> (the seed is the fourth argument in
  \<open>generateProvablePrimes\<close> and the third in \<open>geneareteProvablePrimesWithConditions\<close>), and a
  Shawe-Taylor routine that always succeeds, with the primes \<open>3\<close> and \<open>5\<close> in turn.
\<close>

definition sampleProvableEnv :: env where
  "sampleProvableEnv = sampleEnv\<lparr>ifcProvablePrime :=
     (\<lambda>L N1 N2 seed e. Some (if seed = 2 ^ 223 then 2 ^ 1024 - 1 else 2 ^ 1023 + 1, 3, 5, seed + 1))\<rparr>"

definition sampleConditionsEnv :: env where
  "sampleConditionsEnv = sampleEnv\<lparr>ifcProvablePrime :=
     (\<lambda>L e seed len1 len2. Some (if seed = 2 ^ 223 then 2 ^ 1024 - 1 else 2 ^ 1023 + 1, 3, 5, seed + 1))\<rparr>"


section \<open>Fermat's little theorem and the RSA identity\<close>

lemma prime_coprime:
  assumes "is_prime p" and "\<not> p dvd a"
  shows "coprime p a"
proof -
  have p1: "1 < p" and nd: "\<And>d. 2 \<le> d \<Longrightarrow> d \<le> p - 1 \<Longrightarrow> \<not> d dvd p"
    using assms(1) by (auto simp: is_prime_def)
  let ?g = "gcd p a"
  have g0: "0 \<le> ?g" by simp
  have gp: "?g dvd p" by simp
  have gne: "?g \<noteq> 0" using p1 by auto
  have gle: "?g \<le> p" using gp p1 by (intro zdvd_imp_le) auto
  have "?g \<noteq> p" using assms(2) by (metis gcd_dvd2)
  moreover have "1 \<le> ?g" using g0 gne by linarith
  moreover have "\<not> (2 \<le> ?g \<and> ?g \<le> p - 1)" using nd[of ?g] gp by blast
  ultimately have "?g = 1" using gle by linarith
  then show ?thesis by (simp add: coprime_iff_gcd_eq_1)
qed

lemma prime_dvd_mult:
  assumes "is_prime p" and "p dvd a * b"
  shows "p dvd a \<or> p dvd b"
  using assms prime_coprime coprime_dvd_mult_right_iff by blast

lemma prime_not_dvd_fact:
  assumes "is_prime p" and "int j < p"
  shows "\<not> p dvd int (fact j)"
  using assms(2)
proof (induction j)
  case 0
  then show ?case using assms(1) by (auto simp: is_prime_def)
next
  case (Suc j)
  have "\<not> p dvd int (Suc j)"
    using Suc.prems assms(1) zdvd_not_zless[of "int (Suc j)" p] by (auto simp: is_prime_def)
  moreover have "\<not> p dvd int (fact j)" using Suc by simp
  moreover have "int (fact (Suc j)) = int (Suc j) * int (fact j)"
    by (simp add: algebra_simps)
  ultimately show ?case
    using prime_dvd_mult[OF assms(1), of "int (Suc j)" "int (fact j)"] by metis
qed

lemma prime_dvd_choose:
  assumes "is_prime p" and "0 < k" and "int k < p"
  shows "p dvd int (nat p choose k)"
proof -
  have p1: "1 < p" using assms(1) by (simp add: is_prime_def)
  have kle: "k \<le> nat p" using assms(3) by simp
  have eq: "int (fact k) * int (fact (nat p - k)) * int (nat p choose k) = int (fact (nat p))"
    using binomial_fact_lemma[OF kle] by (metis of_nat_mult)
  have "int (nat p) dvd int (fact (nat p))"
    unfolding int_dvd_int_iff using p1 by (intro dvd_fact) auto
  then have d: "p dvd int (fact k) * int (fact (nat p - k)) * int (nat p choose k)"
    using eq p1 by simp
  have n1: "\<not> p dvd int (fact k)" using prime_not_dvd_fact[OF assms(1) assms(3)] .
  have n2: "\<not> p dvd int (fact (nat p - k))"
    using prime_not_dvd_fact[OF assms(1), of "nat p - k"] assms(2) p1 by auto
  from d n1 n2 show ?thesis
    using prime_dvd_mult[OF assms(1)] by blast
qed

lemma freshman:
  assumes "is_prime p"
  shows "p dvd (a + 1) ^ nat p - (a ^ nat p + 1)"
proof -
  have p1: "1 < p" using assms by (simp add: is_prime_def)
  have "2 \<le> nat p" using p1 by simp
  then obtain n where n: "nat p = Suc (Suc n)"
    by (metis add_2_eq_Suc le_Suc_ex)
  let ?f = "\<lambda>k. int (nat p choose k) * a ^ k * 1 ^ (nat p - k)"
  have "(a + 1) ^ nat p = (\<Sum>k\<le>nat p. ?f k)" by (rule binomial_ring)
  also have "\<dots> = (\<Sum>k\<le>Suc n. ?f k) + ?f (nat p)" by (simp add: n)
  also have "(\<Sum>k\<le>Suc n. ?f k) = ?f 0 + (\<Sum>k=1..Suc n. ?f k)"
    by (simp add: atMost_atLeast0 sum.atLeast_Suc_atMost del: sum.atMost_Suc)
  finally have "(a + 1) ^ nat p - (a ^ nat p + 1) = (\<Sum>k=1..Suc n. ?f k)" by simp
  moreover have "p dvd (\<Sum>k=1..Suc n. ?f k)"
  proof (rule dvd_sum)
    fix k assume "k \<in> {1..Suc n}"
    then have "0 < k" "int k < p" using n by auto
    then show "p dvd ?f k" using prime_dvd_choose[OF assms] by simp
  qed
  ultimately show ?thesis by simp
qed

lemma fermat_nat:
  assumes "is_prime p"
  shows "p dvd int a ^ nat p - int a"
proof (induction a)
  case 0
  have "0 < nat p" using assms by (simp add: is_prime_def)
  then show ?case by (simp add: zero_power)
next
  case (Suc a)
  have e: "(int a + 1) ^ nat p - (int a + 1) =
      ((int a + 1) ^ nat p - (int a ^ nat p + 1)) + (int a ^ nat p - int a)"
    by simp
  have d: "p dvd ((int a + 1) ^ nat p - (int a ^ nat p + 1)) + (int a ^ nat p - int a)"
    using freshman[OF assms, of "int a"] Suc by (rule dvd_add)
  have s: "int (Suc a) = int a + 1" by simp
  show ?case unfolding s using d by (simp only: e)
qed

lemma fermat_little:
  assumes "is_prime p" and "\<not> p dvd a"
  shows "a ^ nat (p - 1) mod p = 1"
proof -
  have p1: "1 < p" using assms by (simp add: is_prime_def)
  let ?b = "a mod p"
  have b0: "0 \<le> ?b" using p1 by simp
  have nb: "\<not> p dvd ?b" using assms(2) by (simp add: dvd_mod_iff)
  have "p dvd ?b ^ nat p - ?b" using fermat_nat[OF assms(1), of "nat ?b"] b0 by simp
  moreover have "nat p = Suc (nat (p - 1))" using p1 by simp
  ultimately have "p dvd ?b * (?b ^ nat (p - 1) - 1)" by (simp add: algebra_simps)
  then have "p dvd ?b ^ nat (p - 1) - 1" using prime_dvd_mult[OF assms(1)] nb by blast
  then have "?b ^ nat (p - 1) mod p = 1 mod p" by (simp add: mod_eq_dvd_iff)
  then show ?thesis using p1 by (simp add: power_mod)
qed

lemma rsa_mod_prime:
  assumes "is_prime p" and "(p - 1) dvd (k - 1)" and "0 < k"
  shows "p dvd m ^ nat k - m"
proof (cases "p dvd m")
  case True
  have "m dvd m ^ nat k" using assms(3) by (intro dvd_power) simp
  with True have "p dvd m ^ nat k" by (rule dvd_trans)
  then show ?thesis using True by simp
next
  case False
  have p1: "1 < p" using assms by (simp add: is_prime_def)
  obtain j where j: "k - 1 = (p - 1) * j" using assms(2) by (auto simp: dvd_def)
  have j0: "0 \<le> j"
  proof (rule ccontr)
    assume "\<not> 0 \<le> j"
    then have "j < 0" by simp
    then have "(p - 1) * j < 0" using p1 by (simp add: mult_less_0_iff)
    then show False using j assms(3) by simp
  qed
  have "nat k = Suc (nat (p - 1) * nat j)"
    using j j0 p1 assms(3) by (simp add: nat_mult_distrib[symmetric])
  then have "m ^ nat k = m * (m ^ nat (p - 1)) ^ nat j" by (simp add: power_mult)
  then have "m ^ nat k mod p = (m * ((m ^ nat (p - 1) mod p) ^ nat j mod p)) mod p"
    by (simp add: power_mod mod_mult_right_eq)
  also have "\<dots> = m mod p" using fermat_little[OF assms(1) False] p1 by simp
  finally show ?thesis by (simp add: mod_eq_dvd_iff)
qed

lemma rsa_identity:
  assumes "is_prime p" and "is_prime q" and "p \<noteq> q"
    and "lcm (p - 1) (q - 1) dvd k - 1" and "0 < k"
  shows "m ^ nat k mod (p * q) = m mod (p * q)"
proof -
  have "p - 1 dvd k - 1" "q - 1 dvd k - 1"
    using assms(4) by (meson dvd_lcm1 dvd_lcm2 dvd_trans)+
  then have dp: "p dvd m ^ nat k - m" and dq: "q dvd m ^ nat k - m"
    using rsa_mod_prime assms by blast+
  have q1: "1 < q" and p1: "1 < p" using assms by (simp_all add: is_prime_def)
  have "\<not> p dvd q"
  proof
    assume pq: "p dvd q"
    have "p \<le> q" using pq q1 by (intro zdvd_imp_le) auto
    then have "2 \<le> p \<and> p \<le> q - 1" using p1 assms(3) by linarith
    then show False using assms(2) pq by (auto simp: is_prime_def)
  qed
  then have "coprime p q" using prime_coprime[OF assms(1)] by blast
  then have "p * q dvd m ^ nat k - m" using dp dq by (rule divides_mult[rotated 2])
  then show ?thesis by (simp add: mod_eq_dvd_iff)
qed

section \<open>Modular inverses\<close>

lemma modInv_correct:
  assumes "1 < c" and "gcd a c = 1"
  shows "c dvd modInv a c * a - 1"
proof -
  let ?x = "nat (a mod c)" and ?y = "nat c"
  have x: "int ?x = a mod c" and y: "int ?y = c" using assms(1) by simp_all
  have "gcd (a mod c) c = 1" using assms(2) by (metis gcd_red_int gcd.commute)
  then have "gcd (int ?x) (int ?y) = 1" by (simp only: x y)
  then have g: "int (gcd ?x ?y) = 1" by (simp only: gcd_int_int_eq[symmetric]) 
  have "fst (bezw ?x ?y) * int ?x + snd (bezw ?x ?y) * int ?y = 1"
    using bezw_aux[of ?x ?y] g by simp
  then have "fst (bezw ?x ?y) * (a mod c) + snd (bezw ?x ?y) * c = 1"
    by (simp only: x y)
  then have "(fst (bezw ?x ?y) * (a mod c) + snd (bezw ?x ?y) * c) mod c = 1 mod c" by simp
  then have "(fst (bezw ?x ?y) * (a mod c)) mod c = 1 mod c" by simp
  then have "(modInv a c * a) mod c = 1 mod c"
    by (simp add: modInv_def mod_mult_eq mod_mult_left_eq mod_mult_right_eq)
  then show ?thesis by (simp add: mod_eq_dvd_iff)
qed

lemma pyPow_inverse:
  assumes "m \<noteq> 0" and "gcd b m = 1"
  shows "\<exists>a. pyPow b (- 1) m = Inr a \<and> m dvd a * b - 1"
proof (cases "\<bar>m\<bar> = 1")
  case True
  then have "m dvd 0 * b - 1" by (metis abs_dvd_iff one_dvd)
  then show ?thesis using True assms(1) by (simp add: pyPow_def)
next
  case False
  then have c: "1 < \<bar>m\<bar>" using assms(1) by linarith
  have g: "gcd b \<bar>m\<bar> = 1" using assms(2) by simp
  have "\<bar>m\<bar> dvd modInv b \<bar>m\<bar> * b - 1" using modInv_correct[OF c g] .
  then have d: "m dvd modInv b \<bar>m\<bar> * b - 1" by simp
  have "m dvd (modInv b \<bar>m\<bar> mod m) * b - 1"
  proof -
    have "((modInv b \<bar>m\<bar> mod m) * b) mod m = (modInv b \<bar>m\<bar> * b) mod m"
      by (simp add: mod_mult_left_eq)
    also have "\<dots> = 1 mod m" using d by (simp add: mod_eq_dvd_iff)
    finally show ?thesis by (simp add: mod_eq_dvd_iff)
  qed
  then show ?thesis using False assms by (simp add: pyPow_def)
qed

section \<open>The probable-prime search loops\<close>

lemma randbits_range:
  assumes "randbits k s = Inr (r, s')"
  shows "0 \<le> r \<and> r < 2 ^ nat k \<and> s' = stl s"
proof -
  have "int (shd s mod 2 ^ nat k) < int (2 ^ nat k)"
    unfolding of_nat_less_iff by simp
  then show ?thesis using assms by (auto simp: randbits_def split: if_splits)
qed

lemma or_one_bounds:
  assumes "0 \<le> (r::int)" and "r < 2 ^ n" and "0 < n"
  shows "0 \<le> r OR 1" and "r OR 1 < 2 ^ n"
proof -
  show "0 \<le> r OR 1" by (rule OR_lower[OF assms(1)]) simp
  have "(1::int) < 2 ^ n" using assms(3) by (simp add: one_less_power)
  then show "r OR 1 < 2 ^ n" by (rule OR_upper[OF assms(1,2)])
qed

lemma coeff1_lower:
  assumes "3 \<le> N div 2"
  shows "2 ^ nat (N div 2 - 1) < coeff1 N"
proof -
  let ?x = "(2::int) ^ nat (N div 2 - 1)"
  have "(2::int) ^ 2 \<le> ?x" using assms by (intro power_increasing) simp_all
  then have x: "4 \<le> ?x" by simp
  have "(?x + 1) * 470832 \<le> 665857 * ?x" using x by simp
  then have "?x + 1 \<le> 665857 * ?x div 470832"
    by (simp add: zdiv_mono1 pos_imp_zdiv_pos_iff zle_diff1_eq le_div_geq div_le_mono int_div_pos_eq) 
  then show ?thesis by (simp add: coeff1_def)
qed

lemma bitLengthNat_exact:
  assumes "2 ^ k \<le> n" and "n < 2 ^ Suc k"
  shows "bitLengthNat n = Suc k"
  using assms
proof (induction k arbitrary: n)
  case 0
  then have "n = 1" by simp
  then show ?case by (simp add: bitLengthNat.simps)
next
  case (Suc k)
  have "2 ^ k \<le> n div 2" "n div 2 < 2 ^ Suc k" using Suc.prems by auto
  then have "bitLengthNat (n div 2) = Suc k" by (rule Suc.IH)
  moreover have "0 < (2::nat) ^ Suc k" by simp
  then have "n \<noteq> 0" using Suc.prems(1) by linarith
  ultimately show ?case by (subst bitLengthNat.simps) simp
qed

lemma bit_length_exact:
  assumes "2 ^ nat (L - 1) \<le> x" and "x < 2 ^ nat L" and "1 \<le> L"
  shows "bit_length x = L"
proof -
  obtain k where k: "nat L = Suc k" using assms(3) by (cases "nat L") auto
  then have k': "nat (L - 1) = k" by simp
  have x0: "0 \<le> x" using assms(1) by (smt (verit) zero_le_power)
  have "(2::nat) ^ k \<le> nat x"
    using assms(1) x0 unfolding k' by (simp add: le_nat_iff)
  moreover have "nat x < 2 ^ Suc k"
    using assms(2) x0 unfolding k by (simp add: nat_less_iff)
  ultimately have "bitLengthNat (nat x) = Suc k" by (rule bitLengthNat_exact)
  then show ?thesis using x0 k by (simp add: bit_length_def)
qed

lemma pLoop_found:
  assumes "pLoop env e N tc fuel i s = Some (Inr (Some (p, s')))" and "0 < N div 2"
  shows "coeff1 N \<le> p \<and> p < 2 ^ nat (N div 2) \<and> gcd (p - 1) e = 1 \<and> millerRabin env p tc"
  using assms(1)
proof (induction fuel arbitrary: i s)
  case 0
  then show ?case by simp
next
  case (Suc fuel)
  obtain r s1 where r: "randbits (N div 2) s = Inr (r, s1)"
    using Suc.prems by (auto split: sum.splits)
  have rb: "r OR 1 < 2 ^ nat (N div 2)"
    using randbits_range[OF r] assms(2) or_one_bounds(2)[of r "nat (N div 2)"] by simp
  show ?case
  proof (cases "r OR 1 < coeff1 N")
    case True
    then show ?thesis using Suc r by (simp add: Let_def)
  next
    case False
    show ?thesis
    proof (cases "gcd ((r OR 1) - 1) e = 1 \<and> millerRabin env (r OR 1) tc")
      case True
      then show ?thesis using Suc.prems r False rb by (simp add: Let_def)
    next
      case nf: False
      then show ?thesis using Suc r False by (auto simp: Let_def split: if_splits)
    qed
  qed
qed

lemma qLoop_found:
  assumes "qLoop env e N tc p fuel i s = Some (Inr (Some (q, s')))" and "0 < N div 2"
  shows "coeff1 N \<le> q \<and> q < 2 ^ nat (N div 2) \<and> gcd (q - 1) e = 1 \<and> millerRabin env q tc
    \<and> \<bar>p - q\<bar> > 2 ^ nat (N div 2 - 100)"
  using assms(1)
proof (induction fuel arbitrary: i s)
  case 0
  then show ?case by simp
next
  case (Suc fuel)
  obtain r s1 where r: "randbits (N div 2) s = Inr (r, s1)"
    using Suc.prems by (auto split: sum.splits)
  have rb: "r OR 1 < 2 ^ nat (N div 2)"
    using randbits_range[OF r] assms(2) or_one_bounds(2)[of r "nat (N div 2)"] by simp
  show ?case
  proof (cases "\<bar>p - (r OR 1)\<bar> \<le> 2 ^ nat (N div 2 - 100) \<or> r OR 1 < coeff1 N")
    case True
    then show ?thesis using Suc r by (auto simp: Let_def split: if_splits)
  next
    case False
    show ?thesis
    proof (cases "gcd ((r OR 1) - 1) e = 1 \<and> millerRabin env (r OR 1) tc")
      case True
      then show ?thesis using Suc.prems r False rb by (simp add: Let_def)
    next
      case nf: False
      then show ?thesis using Suc r False by (auto simp: Let_def split: if_splits)
    qed
  qed
qed

lemma randbits_draw:
  assumes "0 \<le> x" and "x < 2 ^ nat k" and "0 \<le> k"
  shows "randbits k (nat x ## s) = Inr (x, s)"
proof -
  have "nat x < 2 ^ nat k" using assms(1,2) by (simp add: nat_less_iff)
  then show ?thesis using assms(1,3) by (simp add: randbits_def)
qed

lemma odd_or_one: "odd (x::int) \<Longrightarrow> x OR 1 = x"
  by (simp add: or_one_eq)

lemma coeff1_upper:
  assumes "2 \<le> N div 2"
  shows "coeff1 N \<le> 3 * 2 ^ nat (N div 2 - 2)" and "0 \<le> coeff1 N"
proof -
  let ?y = "(2::int) ^ nat (N div 2 - 2)"
  have "nat (N div 2 - 1) = Suc (nat (N div 2 - 2))" using assms by simp
  then have x: "(2::int) ^ nat (N div 2 - 1) = 2 * ?y" by simp
  have "665857 * (2 * ?y) div 470832 \<le> (3 * ?y * 470832) div 470832"
    by (intro zdiv_mono1) simp_all
  then show "coeff1 N \<le> 3 * 2 ^ nat (N div 2 - 2)" by (simp add: coeff1_def x)
  show "0 \<le> coeff1 N" by (simp add: coeff1_def pos_imp_zdiv_nonneg_iff)
qed

lemma generateProbablePrimes_run:
  assumes N: "N = 2048 \<or> N = 3072"
    and e: "2 ^ 16 < e" "e < 2 ^ 256" "odd e"
    and p: "coeff1 N \<le> p" "p < 2 ^ nat (N div 2)" "odd p" "gcd (p - 1) e = 1"
      "millerRabin env p (millerRabinTestsForIFC env N)"
    and q: "coeff1 N \<le> q" "q < 2 ^ nat (N div 2)" "odd q" "gcd (q - 1) e = 1"
      "millerRabin env q (millerRabinTestsForIFC env N)"
    and d: "\<bar>p - q\<bar> > 2 ^ nat (N div 2 - 100)"
  shows "generateProbablePrimes env (Suc fuel) e N (nat p ## nat q ## s) = Some (Inr (Some (p, q)))"
proof -
  have L: "2 \<le> N div 2" "0 \<le> N div 2" using N by auto
  have p0: "0 \<le> p" and q0: "0 \<le> q" using coeff1_upper(2)[OF L(1)] p(1) q(1) by linarith+
  have rp: "randbits (N div 2) (nat p ## nat q ## s) = Inr (p, nat q ## s)"
    using p0 p(2) L(2) by (rule randbits_draw)
  have rq: "randbits (N div 2) (nat q ## s) = Inr (q, s)"
    using q0 q(2) L(2) by (rule randbits_draw)
  have pl: "pLoop env e N (millerRabinTestsForIFC env N) (Suc fuel) 0 (nat p ## nat q ## s)
      = Some (Inr (Some (p, nat q ## s)))"
    using rp p by (simp add: odd_or_one Let_def del: or_one_eq)
  have ql: "qLoop env e N (millerRabinTestsForIFC env N) p (Suc fuel) 0 (nat q ## s)
      = Some (Inr (Some (q, s)))"
    using rq q d by (simp add: odd_or_one Let_def del: or_one_eq)
  have "e mod 2 \<noteq> 0" using e(3) by presburger
  then show ?thesis using N e(1,2) pl ql
    by (simp only: generateProbablePrimes_def Let_def) auto
qed


lemma coprime_pow2_mult:
  assumes "odd (e::int)" and "gcd c e = 1"
  shows "gcd (2 ^ k * c) e = 1"
proof -
  have "coprime (2::int) e" using assms(1) by (simp add: coprime_left_2_iff_odd)
  then have "coprime ((2::int) ^ k) e" by (simp add: coprime_power_left_iff)
  moreover have "coprime c e" using assms(2) by (simp add: coprime_iff_gcd_eq_1)
  ultimately have "coprime (2 ^ k * c) e" by (simp add: coprime_mult_left_iff)
  then show ?thesis by (simp add: coprime_iff_gcd_eq_1)
qed

section \<open>Iteration bounds\<close>




section \<open>Runs of the auxiliary-prime combiner\<close>

lemma xLowBorder_eq: "xLowBorder N = 2 ^ nat (N div 2 - 1)"
  by (simp add: xLowBorder_def)

lemma top_bit_in_range:
  assumes "0 \<le> r" and "r < 2 ^ nat (N div 2)" and "0 < N div 2"
  shows "\<not> (r OR 2 ^ nat (N div 2 - 1) < xLowBorder N \<or> r OR 2 ^ nat (N div 2 - 1) > xHighBorder N)"
proof -
  let ?t = "(2::int) ^ nat (N div 2 - 1)"
  have "nat (N div 2) = Suc (nat (N div 2 - 1))" using assms(3) by simp
  then have "?t < 2 ^ nat (N div 2)" by simp
  then have "r OR ?t < 2 ^ nat (N div 2)" by (rule OR_upper[OF assms(1,2)])
  moreover have "?t \<le> ?t OR r" by (rule or_greater_eq[OF assms(1)])
  then have "?t \<le> r OR ?t" by (simp only: or.commute)
  ultimately show ?thesis by (simp add: xLowBorder_eq xHighBorder_def)
qed

lemma auxRedraw_in_range:
  assumes "\<not> (X < xLowBorder N \<or> X > xHighBorder N)"
  shows "auxRedraw N (Suc fuel) X s = Some (Inr (X, s))"
  using assms by simp

lemma auxInner_found:
  assumes "Y < 2 ^ nat (N div 2)" and "gcd (Y - 1) e = 1" and "millerRabin env Y tc"
  shows "auxInner env tc e N p1 p2 (Suc fuel) i Y = Some (Found Y)"
  using assms by simp

lemma combiner_run:
  assumes "gcd (2 * p1) p2 = 1" and "computeR p1 p2 = Inr R" and "0 < N div 2"
    and "0 \<le> r" and "r < 2 ^ nat (N div 2)"
    and "X = r OR 2 ^ nat (N div 2 - 1)"
    and "Y = X + ((R - X) mod (2 * p1 * p2))"
    and "Y < 2 ^ nat (N div 2)" and "gcd (Y - 1) e = 1"
    and "millerRabin env Y (millerRabinTestsForIFC env N)"
  shows "generateProbablePrimeWithAuxiliaryPrimes env (Suc (Suc fuel)) p1 p2 N e (nat r ## s)
    = Some (Inr (Some ((Y, X), s)))"
proof -
  let ?tc = "millerRabinTestsForIFC env N"
  have rb: "randbits (N div 2) (nat r ## s) = Inr (r, s)"
    using assms(4,5,3) by (intro randbits_draw) simp_all
  have ir: "\<not> (X < xLowBorder N \<or> X > xHighBorder N)"
    unfolding assms(6) using assms(4,5,3) by (rule top_bit_in_range)
  have rd: "auxRedraw N (Suc fuel) (r OR 2 ^ nat (N div 2 - 1)) s = Some (Inr (X, s))"
    unfolding assms(6)[symmetric] using ir by (rule auxRedraw_in_range)
  have inn: "auxInner env ?tc e N p1 p2 (Suc fuel) 0 (X + ((R - X) mod (2 * p1 * p2)))
      = Some (Found Y)"
    unfolding assms(7)[symmetric] using assms(8,9,10) by (rule auxInner_found)
  have "auxOuter env ?tc e N R p1 p2 (Suc (Suc fuel)) (nat r ## s) = Some (Inr (Some ((Y, X), s)))"
    using rb rd inn ir by (simp add: Let_def del: auxRedraw.simps auxInner.simps)
  then show ?thesis
    using assms(1,2,3) by (simp add: generateProbablePrimeWithAuxiliaryPrimes_def Let_def)
qed

lemma auxOuter_zero_draws:
  assumes "auxOuter env tc e N R p1 p2 fuel s = Some (Inr (Some ((Y, X), s')))"
    and "shd s = 0" and "stl s = s" and "0 < N div 2"
  shows "X = 2 ^ nat (N div 2 - 1)"
  using assms(1)
proof (induction fuel)
  case 0
  then show ?case by simp
next
  case (Suc fuel)
  let ?X = "(2::int) ^ nat (N div 2 - 1)"
  have rb: "randbits (N div 2) s = Inr (0, s)"
    using assms(2,3,4) by (simp add: randbits_def)
  have ir: "\<not> (?X < xLowBorder N \<or> ?X > xHighBorder N)"
    using top_bit_in_range[of 0 N] assms(4) by simp
  show ?case
  proof (cases fuel)
    case 0
    then show ?thesis using Suc.prems rb by simp
  next
    case (Suc f)
    have rd: "auxRedraw N fuel (0 OR ?X) s = Some (Inr (?X, s))"
      unfolding Suc using auxRedraw_in_range[OF ir] by simp
    show ?thesis
      using Suc.prems Suc.IH rb rd ir
      by (auto simp: Let_def simp del: auxRedraw.simps auxInner.simps
          split: option.splits step.splits)
  qed
qed

lemma computeR_3_5: "computeR 3 5 = Inr 19"
  by code_simp

lemma sample_Y_mod: "(19 - (2::int) ^ 511) mod 30 = 11"
  by simp

lemma sample_Y_gcd: "gcd ((2::int) ^ 511 + 11 - 1) 65537 = 1"
  by code_simp

lemma sample_combiner_run:
  "generateProbablePrimeWithAuxiliaryPrimes sampleEnv (Suc (Suc 0)) 3 5 1024 65537 (nat 0 ## sconst 0)
     = Some (Inr (Some ((2 ^ 511 + 11, 2 ^ 511), sconst 0)))"
proof (rule combiner_run)
  show "computeR 3 5 = Inr 19" by (rule computeR_3_5)
  show "(2::int) ^ 511 = 0 OR 2 ^ nat (1024 div 2 - 1)" by simp
  show "(2::int) ^ 511 + 11 = 2 ^ 511 + (19 - 2 ^ 511) mod (2 * 3 * 5)"
    using sample_Y_mod by simp
  show "gcd ((2::int) ^ 511 + 11 - 1) 65537 = 1" by (rule sample_Y_gcd)
  show "gcd (2 * 3) (5::int) = 1" by code_simp
qed (simp_all add: sampleEnv_def)

section \<open>Counted iterations and loops without a cap\<close>


















section \<open>Resets of the seed variables, and sample runs\<close>






lemma bit_length_pow2: "bit_length (2 ^ k) = int k + 1"
proof -
  have "bit_length (2 ^ k) = int (Suc k)"
    unfolding bit_length_def
    by (simp add: bitLengthNat_exact[of k "2 ^ k"] nat_power_eq)
  then show ?thesis by simp
qed







lemma bit_length_seed_224: "bit_length (2 ^ 223) = 224"
  using bit_length_pow2[of 223] by simp


lemma sample_conditions_run:
  "geneareteProvablePrimesWithConditions sampleConditionsEnv (Suc 0) e 2048 (2 ^ 223)
     = (if e \<le> 2 ^ 16 \<or> e \<ge> 2 ^ 256 then Some (Inr (unbound, None))
        else Some (Inr (unbound\<lparr>var_workingSeed := Some 0, var_pSeed := Some 0,
          var_qSeed := Some 0, var_p1 := Some 3, var_p2 := Some 5, var_q1 := Some 3,
          var_q2 := Some 5\<rparr>,
        Some (2 ^ 1024 - 1, 2 ^ 1023 + 1))))"
  using bit_length_seed_224
  by (simp add: geneareteProvablePrimesWithConditions_def sampleConditionsEnv_def sampleEnv_def
      Let_def unbound_def)

section \<open>The padding scan of \<open>oaepDecrypt\<close>\<close>

lemma length_toBytesBE: "length (toBytesBE k x) = k"
  by (induction k arbitrary: x) simp_all

lemma intToBytes_length:
  assumes "intToBytes m (Some l) = Inr em"
  shows "length em = nat l"
  using assms
  by (auto simp: intToBytes_def length_toBytesBE split: option.splits if_splits)

lemma length_concat_const:
  assumes "\<And>x. length (f x) = c"
  shows "length (concat (map f xs)) = c * length xs"
  by (induction xs) (simp_all add: assms)

lemma MGF_length:
  assumes "MGF sha256 seed len = Inr (Some msk)" and "\<forall>x. length (digest sha256 x) = digest_size sha256"
    and "0 \<le> len"
  shows "length msk = nat len"
proof -
  let ?h = "int (digest_size sha256)"
  have h: "0 < ?h" using assms(1) by (auto simp: MGF_def Let_def split: if_splits)
  let ?top = "if len mod ?h \<noteq> 0 then len div ?h + 1 else len div ?h"
  let ?t = "concat (map (\<lambda>counter. digest sha256 (seed @ toBytesBE 4 counter)) [0..<nat ?top])"
  have msk: "msk = take (nat len) ?t"
    using assms(1) h by (auto simp: MGF_def Let_def split: if_splits)
  have lt: "length ?t = digest_size sha256 * nat ?top"
    using assms(2) by (subst length_concat_const[where c = "digest_size sha256"]) simp_all
  have d0: "0 \<le> len div ?h" using assms(3) h by (simp add: pos_imp_zdiv_nonneg_iff)
  have "len \<le> ?h * ?top"
  proof (cases "len mod ?h = 0")
    case True
    then show ?thesis by auto
  next
    case False
    have "len = ?h * (len div ?h) + len mod ?h" by simp
    moreover have "len mod ?h < ?h" using h by simp
    ultimately have "len < ?h * (len div ?h) + ?h" by linarith
    then show ?thesis using False by (simp add: algebra_simps)
  qed
  moreover have "0 \<le> ?top" using d0 by auto
  ultimately have "nat len \<le> digest_size sha256 * nat ?top"
    by (metis nat_int nat_mono nat_mult_distrib of_nat_0_le_iff)
  then show ?thesis using msk lt by simp
qed

lemma paddingScan_first:
  assumes "index < length db"
  shows "paddingScan (Suc fuel) db index = Some False"
  using assms by simp

lemma paddingScan_never_leaves:
  assumes "index < length db"
  shows "paddingScan fuel db index \<noteq> Some True"
  using assms by (cases fuel) simp_all

lemma oaepDecrypt_scan_reached:
  assumes wf: "\<forall>x. length (digest sha256 x) = digest_size sha256"
    and n: "int (length ciphertext) = byteLength n" "\<not> byteLength n < 2 * int (digest_size h) + 2"
    and em: "intToBytes m (Some (byteLength n)) = Inr em"
    and dbMask: "MGF sha256 seed (byteLength n - int (digest_size h) - 1) = Inr dbMask"
    and db: "xor (drop (nat (1 + int (digest_size h))) (take (nat (byteLength n)) em)) dbMask = Inr db"
  shows "nat (int (digest_size h)) < length db"
proof -
  let ?nL = "byteLength n" and ?hL = "int (digest_size h)"
  obtain msk where msk: "dbMask = Some msk" using db by (cases dbMask) (auto simp: xor_def)
  have lm: "length msk = nat (?nL - ?hL - 1)"
    using dbMask wf n(2) unfolding msk by (intro MGF_length) auto
  have le: "length em = nat ?nL" using em by (rule intToBytes_length)
  have "length db = min (length (drop (nat (1 + ?hL)) (take (nat ?nL) em))) (length msk)"
    using db unfolding msk by (auto simp: xor_def)
  moreover have "length (drop (nat (1 + ?hL)) (take (nat ?nL) em)) = nat ?nL - nat (1 + ?hL)"
    using le by simp
  moreover have "nat ?nL - nat (1 + ?hL) = nat (?nL - ?hL - 1)" by arith
  ultimately have "length db = nat (?nL - ?hL - 1)" using lm by simp
  then show ?thesis using n(2) by linarith
qed

lemma oaepDecrypt_scan:
  assumes "\<forall>x. length (digest sha256 x) = digest_size sha256"
    and "int (length ciphertext) = byteLength n" and "\<not> byteLength n < 2 * int (digest_size h) + 2"
    and "intToBytes m (Some (byteLength n)) = Inr em"
    and "MGF sha256 seed (byteLength n - int (digest_size h) - 1) = Inr dbMask"
    and "xor (drop (nat (1 + int (digest_size h))) (take (nat (byteLength n)) em)) dbMask = Inr db"
  shows "paddingScan fuel db (nat (int (digest_size h))) \<noteq> Some True
      \<and> paddingScan (Suc fuel) db (nat (int (digest_size h))) = Some False"
  using oaepDecrypt_scan_reached[OF assms] paddingScan_never_leaves paddingScan_first
  by blast

lemma oaepDecrypt_no_message:
  assumes "\<forall>x. length (digest sha256 x) = digest_size sha256"
  shows "oaepDecrypt sha256 h fuel d n ciphertext label \<noteq> Some (Inr (Some message))"
  using oaepDecrypt_scan[OF assms, of ciphertext n h _ _ _ _ _ fuel]
  by (auto simp: oaepDecrypt_def Let_def simp del: paddingScan.simps
      split: sum.splits option.splits bool.splits if_splits)

lemma oaepDecrypt_returns_None_or_raises:
  assumes "\<forall>x. length (digest sha256 x) = digest_size sha256"
  shows "oaepDecrypt sha256 h (Suc fuel) d n ciphertext label = Some (Inr None)
    \<or> (\<exists>err. oaepDecrypt sha256 h (Suc fuel) d n ciphertext label = Some (Inl err))"
  using oaepDecrypt_scan[OF assms, of ciphertext n h _ _ _ _ _ fuel]
  by (auto simp: oaepDecrypt_def Let_def simp del: paddingScan.simps
      split: sum.splits option.splits bool.splits if_splits)

section \<open>A sample run of \<open>oaepEncrypt\<close>\<close>

lemma byteLength_sample_n: "byteLength 4294967297 = 5"
proof -
  have "bit_length 4294967297 = 33" by (rule bit_length_exact) simp_all
  then show ?thesis by (simp add: byteLength_def)
qed

lemma byteLength_7: "byteLength 7 = 1"
proof -
  have "bit_length 7 = 3" by (rule bit_length_exact) simp_all
  then show ?thesis by (simp add: byteLength_def)
qed

lemma five_eq_Suc: "(5::nat) = Suc (Suc (Suc (Suc (Suc 0))))"
  by simp

lemma toBytesBE_sample_n_Suc: "toBytesBE (Suc (Suc (Suc (Suc (Suc 0))))) 4294967297 = [1, 0, 0, 0, 1]"
  by simp

lemma toBytesBE_sample_c_Suc: "toBytesBE (Suc (Suc (Suc (Suc (Suc 0))))) 98090598 = [0, 5, 216, 190, 102]"
  by simp

lemma toBytesBE_sample_n: "toBytesBE 5 4294967297 = [1, 0, 0, 0, 1]"
  by (simp only: five_eq_Suc toBytesBE_sample_n_Suc)

lemma toBytesBE_sample_c: "toBytesBE 5 98090598 = [0, 5, 216, 190, 102]"
  by (simp only: five_eq_Suc toBytesBE_sample_c_Suc)

lemma sample_oaep_modulus_bytes: "intToBytes (Some 4294967297) None = Inr [1, 0, 0, 0, 1]"
  by (simp add: intToBytes_def byteLength_sample_n toBytesBE_sample_n)

lemma sample_oaep_seed_bytes: "intToBytes (Some 7) None = Inr [7]"
  by (simp add: intToBytes_def byteLength_7)

lemma sample_oaep_ciphertext: "intToBytes (Some 98090598) (Some 5) = Inr [0, 5, 216, 190, 102]"
  by (simp add: intToBytes_def toBytesBE_sample_c)

lemma sample_oaep_dbMask: "MGF sampleHash [7] 3 = Inr (Some [0, 0, 0])" by code_simp
lemma sample_oaep_maskedDb: "xor [0, 1, 65] (Some [0, 0, 0]) = Inr [0, 1, 65]" by code_simp
lemma sample_oaep_seedMask: "MGF sampleHash [0, 1, 65] 1 = Inr (Some [0])" by code_simp
lemma sample_oaep_maskedSeed: "xor [7] (Some [0]) = Inr [7]" by code_simp
lemma sample_oaep_em: "bytesToInt [0, 7, 0, 1, 65] = 117440833" by code_simp
lemma sample_oaep_encrypt: "encrypt 7 4294967297 117440833 = Inr (Some 98090598)" by code_simp
lemma sample_oaep_draw: "randbits 8 (7 ## sconst 0) = Inr (7, sconst 0)" by (simp add: randbits_def)

lemma sample_oaepEncrypt:
  "oaepEncrypt sampleHash \<lparr>digest_size = 1, digest = (\<lambda>x. [0])\<rparr> 7 4294967297 [65] []
     (7 ## sconst 0) = Inr (Some [0, 5, 216, 190, 102])"
  by (simp add: oaepEncrypt_def Let_def sample_oaep_draw sample_oaep_modulus_bytes sample_oaep_seed_bytes sample_oaep_dbMask sample_oaep_maskedDb sample_oaep_seedMask sample_oaep_maskedSeed sample_oaep_em sample_oaep_encrypt sample_oaep_ciphertext)

section \<open>Claims\<close>

text \<open>
  C8.  RSA round trip.  For distinct primes \<open>p\<close>, \<open>q\<close>, modulus \<open>n = p * q\<close>, (positive) RSA
  exponents with \<open>e * d \<equiv> 1 (mod lcm (p - 1) (q - 1))\<close> and every message with
  \<open>0 \<le> m \<le> n - 1\<close>, \<open>encrypt\<close> returns a ciphertext that \<open>decrypt\<close> maps back to \<open>m\<close>;
  and for all arguments \<open>encrypt\<close> and \<open>decrypt\<close> return \<open>None\<close> exactly when the
  message argument is outside \<open>[0, n - 1]\<close>.
\<close>

theorem rsa_round_trip:
  assumes "is_prime p" and "is_prime q" and "p \<noteq> q" and "n = p * q"
    and "lcm (p - 1) (q - 1) dvd e * d - 1" and "0 < e" and "0 < d"
    and "0 \<le> m" and "m \<le> n - 1"
  shows "(\<exists>c. encrypt e n m = Inr (Some c) \<and> decrypt d n c = Inr (Some m))
    \<and> (\<forall>e' n' x. (encrypt e' n' x = Inr None) = (x < 0 \<or> x > n' - 1))
    \<and> (\<forall>d' n' x. (decrypt d' n' x = Inr None) = (x < 0 \<or> x > n' - 1))"
proof (intro conjI)
  have n0: "0 < n" using assms(8,9) by linarith
  let ?c = "m ^ nat e mod n"
  have "0 \<le> ?c" "?c < n" using n0 by simp_all
  then have c: "\<not> (?c < 0 \<or> ?c > n - 1)" by linarith
  have enc: "encrypt e n m = Inr (Some ?c)"
    using assms(6,8,9) n0 by (simp add: encrypt_def pyPow_def)
  have "?c ^ nat d mod n = m ^ (nat e * nat d) mod n"
    by (simp add: power_mod power_mult)
  also have "nat e * nat d = nat (e * d)" using assms(6,7) by (simp add: nat_mult_distrib)
  also have "m ^ nat (e * d) mod n = m mod n"
    unfolding assms(4) using assms(1,2,3,5,6,7) by (intro rsa_identity) simp_all
  also have "m mod n = m" using assms(8,9) by simp
  finally have "decrypt d n ?c = Inr (Some m)"
    using c assms(7) n0 by (simp add: decrypt_def pyPow_def del: not_less)
  with enc show "\<exists>c. encrypt e n m = Inr (Some c) \<and> decrypt d n c = Inr (Some m)" by blast
  show "\<forall>e' n' x. (encrypt e' n' x = Inr None) = (x < 0 \<or> x > n' - 1)"
    by (auto simp: encrypt_def map_sum_def split: sum.splits)
  show "\<forall>d' n' x. (decrypt d' n' x = Inr None) = (x < 0 \<or> x > n' - 1)"
    by (auto simp: decrypt_def map_sum_def split: sum.splits)
qed

lemma is_prime_61: "is_prime 61"
  unfolding is_prime_def by code_simp

lemma is_prime_53: "is_prime 53"
  unfolding is_prime_def by code_simp

theorem rsa_round_trip_witness:
  "is_prime 61 \<and> is_prime 53 \<and> (61::int) \<noteq> 53 \<and> (3233::int) = 61 * 53
   \<and> lcm (61 - 1) (53 - 1) dvd (17::int) * 413 - 1 \<and> (0::int) < 17 \<and> (0::int) < 413
   \<and> (0::int) \<le> 65 \<and> (65::int) \<le> 3233 - 1
   \<and> encrypt 17 3233 65 = Inr (Some 2790) \<and> decrypt 413 3233 2790 = Inr (Some 65)"
proof -
  have l: "lcm (61 - 1) (53 - 1) dvd (17::int) * 413 - 1" by code_simp
  have e: "encrypt 17 3233 65 = Inr (Some 2790)" by (simp add: encrypt_def pyPow_def)
  obtain c where "encrypt 17 3233 65 = Inr (Some c)" "decrypt 413 3233 c = Inr (Some 65)"
    using rsa_round_trip[OF is_prime_61 is_prime_53 _ _ l, of 3233 65] by auto
  with e l is_prime_61 is_prime_53 show ?thesis by simp
qed

text \<open>
  C10.  In \<open>generateProbablePrimeWithAuxiliaryPrimes\<close>, for an auxiliary prime \<open>p1\<close> (a positive
  integer) and under the checked precondition \<open>gcd (2 * p1) p2 = 1\<close>, both modular inverses
  exist (neither \<open>pow\<close> raises), and \<open>R = (p2\<^sup>-\<^sup>1 mod 2 p1) * p2 - ((2 p1)\<^sup>-\<^sup>1 mod p2) * 2 p1\<close>
  satisfies \<open>R mod 2 p1 = 1\<close> and \<open>R mod p2 = -1 mod p2\<close>, so that the assertion holds and
  \<open>computeR\<close> returns \<open>R\<close>.
\<close>

theorem aux_R_congruences:
  assumes "0 < p1" and "gcd (2 * p1) p2 = 1"
  shows "\<exists>a b. pyPow p2 (- 1) (2 * p1) = Inr a \<and> pyPow (2 * p1) (- 1) p2 = Inr b
           \<and> (a * p2 - b * 2 * p1) mod (2 * p1) = 1
           \<and> (a * p2 - b * 2 * p1) mod p2 = (- 1) mod p2
           \<and> computeR p1 p2 = Inr (a * p2 - b * 2 * p1)"
proof -
  have m0: "2 * p1 \<noteq> 0" and m1: "1 < 2 * p1" using assms(1) by simp_all
  have p20: "p2 \<noteq> 0" using assms(2) m1 by auto
  have g': "gcd p2 (2 * p1) = 1" using assms(2) by (simp add: gcd.commute)
  obtain a where a: "pyPow p2 (- 1) (2 * p1) = Inr a" "2 * p1 dvd a * p2 - 1"
    using pyPow_inverse[OF m0 g'] by blast
  obtain b where b: "pyPow (2 * p1) (- 1) p2 = Inr b" "p2 dvd b * (2 * p1) - 1"
    using pyPow_inverse[OF p20 assms(2)] by blast
  let ?R = "a * p2 - b * 2 * p1"
  have "?R mod (2 * p1) = (a * p2) mod (2 * p1)"
    by (metis mod_diff_right_eq mod_mult_self2_is_0 diff_zero mult.assoc mult.commute)
  also have "\<dots> = 1 mod (2 * p1)" using a(2) by (simp add: mod_eq_dvd_iff)
  also have "\<dots> = 1" using m1 by simp
  finally have r1: "?R mod (2 * p1) = 1" .
  have "p2 dvd ?R - (- 1)"
  proof -
    have e: "?R - (- 1) = a * p2 - (b * (2 * p1) - 1)" by (simp add: algebra_simps)
    have "p2 dvd a * p2" by simp
    then have "p2 dvd a * p2 - (b * (2 * p1) - 1)" using b(2) by (rule dvd_diff)
    then show ?thesis by (simp only: e)
  qed
  then have r2: "?R mod p2 = (- 1) mod p2" by (simp only: mod_eq_dvd_iff)
  have "computeR p1 p2 = Inr ?R"
    using a(1) b(1) r1 r2 m0 p20 by (simp add: computeR_def Let_def)
  with a(1) b(1) r1 r2 show ?thesis by blast
qed


theorem aux_R_congruences_witness:
  "(0::int) < 3 \<and> gcd (2 * 3) (5::int) = 1
   \<and> (\<exists>a b. pyPow 5 (- 1) (2 * 3) = Inr a \<and> pyPow (2 * 3) (- 1) 5 = Inr b
           \<and> (a * 5 - b * 2 * 3) mod (2 * 3) = 1
           \<and> (a * 5 - b * 2 * 3) mod 5 = (- 1) mod 5
           \<and> computeR 3 5 = Inr (a * 5 - b * 2 * 3))"
proof -
  have g: "gcd (2 * 3) (5::int) = 1" by code_simp
  show ?thesis using aux_R_congruences[of 3 5] g by simp
qed

text \<open>
  C1.  Whenever \<open>generateProbablePrimes\<close> returns a pair \<open>(p, q)\<close>, both numbers have passed the
  Miller-Rabin test with \<open>millerRabinTestsForIFC(N)[0]\<close> rounds, \<open>gcd (p - 1) e = 1\<close> and
  \<open>gcd (q - 1) e = 1\<close>, \<open>\<bar>p - q\<bar> > 2 ^ (N div 2 - 100)\<close>, and the bit length of both is exactly
  \<open>N div 2\<close>, because both are at least \<open>coeff1 N\<close>, which is greater than \<open>2 ^ (N div 2 - 1)\<close>.
\<close>

theorem generateProbablePrimes_sound:
  assumes "generateProbablePrimes env fuel e N s = Some (Inr (Some (p, q)))"
  shows "millerRabin env p (millerRabinTestsForIFC env N)
    \<and> millerRabin env q (millerRabinTestsForIFC env N)
    \<and> gcd (p - 1) e = 1 \<and> gcd (q - 1) e = 1
    \<and> \<bar>p - q\<bar> > 2 ^ nat (N div 2 - 100)
    \<and> bit_length p = N div 2 \<and> bit_length q = N div 2
    \<and> coeff1 N \<le> p \<and> coeff1 N \<le> q \<and> 2 ^ nat (N div 2 - 1) < coeff1 N"
proof -
  let ?tc = "millerRabinTestsForIFC env N"
  have N: "N = 2048 \<or> N = 3072"
    using assms by (auto simp: generateProbablePrimes_def split: if_splits)
  then have L: "0 < N div 2" "3 \<le> N div 2" "1 \<le> N div 2" by auto
  obtain s1 s2 where p: "pLoop env e N ?tc fuel 0 s = Some (Inr (Some (p, s1)))"
    and q: "qLoop env e N ?tc p fuel 0 s1 = Some (Inr (Some (q, s2)))"
    using assms
    by (auto simp: generateProbablePrimes_def Let_def split: if_splits option.splits sum.splits)
  note P = pLoop_found[OF p L(1)] and Q = qLoop_found[OF q L(1)]
  note c = coeff1_lower[OF L(2)]
  have "bit_length p = N div 2" using P c by (intro bit_length_exact L(3)) simp_all
  moreover have "bit_length q = N div 2" using Q c by (intro bit_length_exact L(3)) simp_all
  ultimately show ?thesis using P Q c by simp
qed

theorem generateProbablePrimes_sound_witness:
  "generateProbablePrimes sampleEnv (Suc 0) 65537 2048
     (nat (2 ^ 1022 * 3 + 1) ## nat (2 ^ 1000 * 12582913 + 1) ## sconst 0)
     = Some (Inr (Some (2 ^ 1022 * 3 + 1, 2 ^ 1000 * 12582913 + 1)))
   \<and> millerRabin sampleEnv (2 ^ 1022 * 3 + 1) (millerRabinTestsForIFC sampleEnv 2048)
   \<and> gcd (2 ^ 1022 * 3 + 1 - 1) (65537::int) = 1
   \<and> gcd (2 ^ 1000 * 12582913 + 1 - 1) (65537::int) = 1
   \<and> bit_length (2 ^ 1022 * 3 + 1) = 2048 div 2
   \<and> bit_length (2 ^ 1000 * 12582913 + 1) = 2048 div 2"
proof -
  let ?p = "2 ^ 1022 * 3 + 1 :: int" and ?q = "2 ^ 1000 * 12582913 + 1 :: int"
  have c: "coeff1 2048 \<le> 3 * 2 ^ 1022" using coeff1_upper(1)[of 2048] by simp
  have g3: "gcd (3::int) 65537 = 1" by code_simp
  have gq: "gcd (12582913::int) 65537 = 1" by code_simp
  have o: "odd (65537::int)" by simp
  have gp: "gcd (?p - 1) 65537 = 1"
    unfolding add_diff_cancel_right' using o g3 by (rule coprime_pow2_mult)
  have gq': "gcd (?q - 1) 65537 = 1"
    unfolding add_diff_cancel_right' using o gq by (rule coprime_pow2_mult)
  have run: "generateProbablePrimes sampleEnv (Suc 0) 65537 2048 (nat ?p ## nat ?q ## sconst 0)
      = Some (Inr (Some (?p, ?q)))"
  proof (rule generateProbablePrimes_run)
    show "coeff1 2048 \<le> ?p" using c by simp
    show "coeff1 2048 \<le> ?q" using c by simp
    show "gcd (?p - 1) 65537 = 1" by (rule gp)
    show "gcd (?q - 1) 65537 = 1" by (rule gq')
    show "\<bar>?p - ?q\<bar> > 2 ^ nat (2048 div 2 - 100)" by simp
  qed (simp_all add: sampleEnv_def)
  from generateProbablePrimes_sound[OF run] run gp gq' show ?thesis by blast
qed





text \<open>
  C3 says that the lower border of the combiner is \<open>coeff1\<close>, so that every returned \<open>X\<close> is at
  least \<open>coeff1 N\<close>.  In the source the floor division of \<open>665857 // 470832 * pow(2, N // 2 - 1)\<close>
  is taken first, so the border is \<open>2 ^ (N div 2 - 1)\<close>: whenever the combiner returns under
  a random source whose draws are all \<open>0\<close>, the returned \<open>X\<close> is \<open>2 ^ (N div 2 - 1)\<close>, which is
  below \<open>coeff1 N\<close>.
\<close>

theorem auxiliary_witness_below_coeff1:
  assumes "generateProbablePrimeWithAuxiliaryPrimes env fuel p1 p2 N e s
      = Some (Inr (Some ((Y, X), s')))"
    and "shd s = 0" and "stl s = s" and "3 \<le> N div 2"
  shows "xLowBorder N = 2 ^ nat (N div 2 - 1) \<and> X = 2 ^ nat (N div 2 - 1) \<and> X < coeff1 N"
proof -
  have L: "0 < N div 2" using assms(4) by simp
  obtain R where "auxOuter env (millerRabinTestsForIFC env N) e N R p1 p2 fuel s
      = Some (Inr (Some ((Y, X), s')))"
    using assms(1)
    by (auto simp: generateProbablePrimeWithAuxiliaryPrimes_def Let_def
        split: if_splits sum.splits)
  then have "X = 2 ^ nat (N div 2 - 1)" using assms(2,3) L by (rule auxOuter_zero_draws)
  then show ?thesis using coeff1_lower[OF assms(4)] xLowBorder_eq by simp
qed


theorem auxiliary_witness_below_coeff1_witness:
  "generateProbablePrimeWithAuxiliaryPrimes sampleEnv (Suc (Suc 0)) 3 5 1024 65537 (sconst 0)
     = Some (Inr (Some ((2 ^ 511 + 11, 2 ^ 511), sconst 0)))
   \<and> xLowBorder 1024 = 2 ^ nat (1024 div 2 - 1)
   \<and> (2::int) ^ 511 = 2 ^ nat (1024 div 2 - 1) \<and> 2 ^ 511 < coeff1 1024"
proof -
  have s: "nat 0 ## sconst 0 = sconst (0::nat)" by (subst (2) siterate.ctr) simp
  have run: "generateProbablePrimeWithAuxiliaryPrimes sampleEnv (Suc (Suc 0)) 3 5 1024 65537
      (sconst 0) = Some (Inr (Some ((2 ^ 511 + 11, 2 ^ 511), sconst 0)))"
    using sample_combiner_run unfolding s .
  have "shd (sconst (0::nat)) = 0" "stl (sconst (0::nat)) = sconst 0" by simp_all
  from auxiliary_witness_below_coeff1[OF run this] run show ?thesis by simp
qed

text \<open>
  C9.  In the direct-random mode (\<open>probablePrimes = True\<close>) the seed argument of
  \<open>generateProbablePrimesWithConditions\<close> is never read: two runs with the same \<open>e\<close>, \<open>N\<close>,
  external services and random draws, and any two seeds (\<open>None\<close> included), have the same
  outcome (the same raise, the same returned value and final variables, or both still running
  after the same number of iterations).
\<close>

theorem seed_ignored_in_direct_mode:
  "generateProbablePrimesWithConditions env fuel e N seed True s
     = generateProbablePrimesWithConditions env fuel e N seed' True s"
  by (simp add: generateProbablePrimesWithConditions_def)


theorem seed_ignored_in_direct_mode_witness:
  "generateProbablePrimesWithConditions sampleEnv 3 65537 1024 None True (sconst 0)
     = generateProbablePrimesWithConditions sampleEnv 3 65537 1024 (Some 5) True (sconst 0)"
  by (rule seed_ignored_in_direct_mode)









text \<open>
  C4 says that the two generators with conditions reject an even exponent at entry, as
  \<open>generateProvablePrimes\<close> and \<open>generateProbablePrimes\<close> do.  They test the range of \<open>e\<close>
  only.  With \<open>e = 2 ^ 17\<close>: the two siblings return \<open>None\<close> at once;
  \<open>geneareteProvablePrimesWithConditions\<close> calls the oracle and returns the pair it gets;
  \<open>generateProbablePrimesWithConditions\<close> in the direct-random mode has not returned before its
  first loop, and in the seed-driven mode returns \<open>None\<close> only after the first Shawe-Taylor
  call has bound \<open>p1\<close> and \<open>primeSeed\<close>.
\<close>

theorem even_exponent_not_rejected:
  "generateProvablePrimes sampleProvableEnv (Suc 0) (2 ^ 17) 2048 (2 ^ 223)
     = Some (Inr (unbound, None))
   \<and> generateProbablePrimes sampleEnv 0 (2 ^ 17) 2048 (sconst 0) = Some (Inr None)
   \<and> geneareteProvablePrimesWithConditions sampleConditionsEnv (Suc 0) (2 ^ 17) 2048 (2 ^ 223)
     = Some (Inr (unbound\<lparr>var_workingSeed := Some 0, var_pSeed := Some 0,
          var_qSeed := Some 0, var_p1 := Some 3, var_p2 := Some 5, var_q1 := Some 3,
          var_q2 := Some 5\<rparr>,
        Some (2 ^ 1024 - 1, 2 ^ 1023 + 1)))
   \<and> generateProbablePrimesWithConditions sampleEnv 0 (2 ^ 17) 2048 None True (sconst 0) = None
   \<and> generateProbablePrimesWithConditions
       (sampleEnv\<lparr>shaweTaylor :=
          (\<lambda>k seed. \<lparr>status = (seed = 2 ^ 223), prime = 3, primeSeed = seed + 1\<rparr>)\<rparr>)
       0 (2 ^ 17) 2048 (Some (2 ^ 223)) False (sconst 0)
     = Some (Inr (unbound\<lparr>var_p1 := Some 3, var_primeSeed := Some (2 ^ 223 + 1)\<rparr>, None))"
proof (intro conjI)
  show "generateProvablePrimes sampleProvableEnv (Suc 0) (2 ^ 17) 2048 (2 ^ 223)
     = Some (Inr (unbound, None))"
    by (simp add: generateProvablePrimes_def)
  show "generateProbablePrimes sampleEnv 0 (2 ^ 17) 2048 (sconst 0) = Some (Inr None)"
    by (simp add: generateProbablePrimes_def)
  show "geneareteProvablePrimesWithConditions sampleConditionsEnv (Suc 0) (2 ^ 17) 2048 (2 ^ 223)
     = Some (Inr (unbound\<lparr>var_workingSeed := Some 0, var_pSeed := Some 0,
          var_qSeed := Some 0, var_p1 := Some 3, var_p2 := Some 5, var_q1 := Some 3,
          var_q2 := Some 5\<rparr>,
        Some (2 ^ 1024 - 1, 2 ^ 1023 + 1)))"
    using sample_conditions_run[of "2 ^ 17"] by simp
  show "generateProbablePrimesWithConditions sampleEnv 0 (2 ^ 17) 2048 None True (sconst 0) = None"
    by (simp add: generateProbablePrimesWithConditions_def sampleEnv_def randomOddTop_def
        randbits_def Let_def)
  show "generateProbablePrimesWithConditions
       (sampleEnv\<lparr>shaweTaylor :=
          (\<lambda>k seed. \<lparr>status = (seed = 2 ^ 223), prime = 3, primeSeed = seed + 1\<rparr>)\<rparr>)
       0 (2 ^ 17) 2048 (Some (2 ^ 223)) False (sconst 0)
     = Some (Inr (unbound\<lparr>var_p1 := Some 3, var_primeSeed := Some (2 ^ 223 + 1)\<rparr>, None))"
    using bit_length_seed_224
    by (simp add: generateProbablePrimesWithConditions_def sampleEnv_def Let_def)
qed

text \<open>
  C6.  \<open>oaepDecrypt\<close> never returns a message: for every \<open>d\<close>, \<open>n\<close>, ciphertext, label and
  hash function the call does not return a \<open>bytes\<close> object, and with one iteration of the scan
  allowed it returns \<open>None\<close> or raises.  Whenever the padding scan is entered with an index
  inside the data block, the comparison of the integer \<open>db[index]\<close> with \<open>b"\x01"\<close> is
  false and the one with \<open>b"\x00"\<close> is true, so the scan returns \<open>None\<close> in its first
  iteration.  The hash function behind \<open>MGF\<close> produces digests of \<open>digest_size\<close> bytes, as
  \<open>hashlib.sha256\<close> does.
\<close>

theorem oaepDecrypt_never_returns_message:
  assumes "\<forall>x. length (digest sha256 x) = digest_size sha256"
  shows "oaepDecrypt sha256 h fuel d n ciphertext label \<noteq> Some (Inr (Some message))
    \<and> (oaepDecrypt sha256 h (Suc fuel) d n ciphertext label = Some (Inr None)
        \<or> (\<exists>err. oaepDecrypt sha256 h (Suc fuel) d n ciphertext label = Some (Inl err)))
    \<and> (index < length db \<longrightarrow> paddingScan (Suc fuel) db index = Some False)"
  using oaepDecrypt_no_message[OF assms] oaepDecrypt_returns_None_or_raises[OF assms]
    paddingScan_first
  by blast


theorem oaepDecrypt_never_returns_message_witness:
  "(\<forall>x. length (digest sampleHash x) = digest_size sampleHash)
   \<and> oaepDecrypt sampleHash sampleHash 0 413 3233 [1, 2] [] \<noteq> Some (Inr (Some []))
   \<and> (oaepDecrypt sampleHash sampleHash (Suc 0) 413 3233 [1, 2] [] = Some (Inr None)
        \<or> (\<exists>err. oaepDecrypt sampleHash sampleHash (Suc 0) 413 3233 [1, 2] [] = Some (Inl err)))
   \<and> paddingScan (Suc 0) [5] 0 = Some False"
proof -
  have wf: "\<forall>x. length (digest sampleHash x) = digest_size sampleHash"
    by (simp add: sampleHash_def)
  have "(0::nat) < length [5::byte]" by simp
  with oaepDecrypt_never_returns_message[OF wf, of sampleHash 0 413 3233 "[1, 2]" "[]" "[]" 0 "[5]"]
    wf show ?thesis by blast
qed

text \<open>
  C5 says that \<open>oaepDecrypt\<close> applied to the output of \<open>oaepEncrypt\<close> returns the message.
  It never does: whatever \<open>oaepEncrypt\<close> returns for a message, \<open>oaepDecrypt\<close> does not return
  that message for it (by the padding scan, it returns \<open>None\<close> or raises).  The hash function
  behind \<open>MGF\<close> produces digests of \<open>digest_size\<close> bytes.
\<close>

theorem oaep_round_trip_fails:
  assumes "\<forall>x. length (digest sha256 x) = digest_size sha256"
    and "oaepEncrypt sha256 h e n message label s = Inr (Some ciphertext)"
  shows "oaepDecrypt sha256 h fuel d n ciphertext label \<noteq> Some (Inr (Some message))"
  using assms(1) by (rule oaepDecrypt_no_message)

theorem oaep_round_trip_fails_witness:
  "(\<forall>x. length (digest sampleHash x) = digest_size sampleHash)
   \<and> oaepEncrypt sampleHash \<lparr>digest_size = 1, digest = (\<lambda>x. [0])\<rparr> 7 4294967297 [65] []
        (7 ## sconst 0) = Inr (Some [0, 5, 216, 190, 102])
   \<and> oaepDecrypt sampleHash \<lparr>digest_size = 1, digest = (\<lambda>x. [0])\<rparr> (Suc 0) 9572023 4294967297
        [0, 5, 216, 190, 102] [] \<noteq> Some (Inr (Some [65]))"
proof -
  have wf: "\<forall>x. length (digest sampleHash x) = digest_size sampleHash"
    by (simp add: sampleHash_def)
  from oaep_round_trip_fails[OF wf sample_oaepEncrypt, of "Suc 0" 9572023] wf sample_oaepEncrypt
  show ?thesis by blast
qed

end
